theory Spec2Isabelle
  imports Main
begin

section \<open>Netlist data model\<close>

text \<open>
  The pass works on the netlist kernel's objects. Only the fields the pass reads or
  writes are kept. A \<^verbatim>\<open>Wire*\<close> or \<^verbatim>\<open>Cell*\<close> is the position of the object in its
  module's list: objects are only ever added at the end, never removed, so a position
  names the same object for the whole run.
\<close>

type_synonym idstring = string

datatype bit_state = S0 | S1 | Sx | Sz | Sa | Sm

datatype sigbit = WireBit nat nat | ConstBit bit_state

type_synonym sigspec = "sigbit list"

text \<open>
  An attribute value (\<^verbatim>\<open>RTLIL::Const\<close>), seen through the two accessors the pass
  calls on it.
\<close>

record const =
  as_bool :: bool
  decode_string :: string

record wire =
  wire_name :: idstring
  width :: nat
  port_id :: nat
  port_input :: bool
  port_output :: bool
  attributes :: "(idstring \<times> const) list"

record cell =
  cell_name :: idstring
  cell_type :: idstring
  connections :: "(idstring \<times> sigspec) list"

record rtlil_module =
  mod_name :: idstring
  mod_attributes :: "(idstring \<times> const) list"
  mod_wires :: "wire list"
  mod_cells :: "cell list"
  mod_connections :: "(sigspec \<times> sigspec) list"
  ports :: "idstring list"

text \<open>The design's module table (\<^verbatim>\<open>design->module(name)\<close>, null as \<open>None\<close>).\<close>

type_synonym design = "idstring \<Rightarrow> rtlil_module option"

section \<open>Port-name pairs\<close>

text \<open>
  \<^verbatim>\<open>std::string::find_first_of(c)\<close>: the position of the first occurrence of the
  character, \<open>None\<close> standing for \<^verbatim>\<open>npos\<close>.
\<close>

fun find_first_of :: "string \<Rightarrow> char \<Rightarrow> nat option" where
  "find_first_of [] c = None"
| "find_first_of (x # xs) c =
     (if x = c then Some 0 else map_option Suc (find_first_of xs c))"

text \<open>
  \<^verbatim>\<open>split_portname_pair(port1, port2)\<close> takes both strings by reference; the
  model returns the pair of their values on return.
\<close>

definition split_portname_pair :: "string \<Rightarrow> string \<Rightarrow> string \<times> string" where
  "split_portname_pair port1 port2 =
     (case find_first_of port1 (CHR '':'') of
        None \<Rightarrow> (port1, port2)
      | Some pos \<Rightarrow> (take pos port1, drop (pos + 1) port1))"

lemma find_first_of_None: "find_first_of s c = None \<longleftrightarrow> c \<notin> set s"
  by (induction s) auto

text \<open>
  C9 (as the code has it). A port specification without a \<open>:\<close> separator is left as it
  is in the first name, and the second name keeps the value it had before the call,
  whatever that was; it is never made a copy of the first.
\<close>

theorem split_portname_pair_no_separator:
  "CHR '':'' \<notin> set port1 \<Longrightarrow> split_portname_pair port1 port2 = (port1, port2)"
  by (simp add: split_portname_pair_def find_first_of_None [THEN iffD2])

theorem split_portname_pair_no_separator_witness:
  "CHR '':'' \<notin> set ''O'' \<and> split_portname_pair ''O'' [] = (''O'', [])"
  using split_portname_pair_no_separator [of "''O''" "[]"] by simp

text \<open>
  C9 (as the specification words it) fails: with the single name \<open>O\<close> and an empty
  second string (the value of a default-constructed \<^verbatim>\<open>std::string\<close>), the second name
  returned is not \<open>O\<close>.
\<close>

theorem split_portname_pair_single_name_counterexample:
  "snd (split_portname_pair ''O'' []) \<noteq> ''O''"
  by (simp add: split_portname_pair_def)

section \<open>Module ordering\<close>

text \<open>
  \<^verbatim>\<open>module_queue\<close> recurses through the instantiation relation with nothing to stop it
  on a cycle, so the model carries fuel: \<open>None\<close> is a call that has not returned within
  the given recursion depth. A \<^verbatim>\<open>Module*\<close> in \<^verbatim>\<open>modules_processed\<close> is represented by
  the module's name, the key of the design's module table.
\<close>

type_synonym queue_state = "rtlil_module list \<times> idstring set"

fun module_queue ::
  "nat \<Rightarrow> design \<Rightarrow> rtlil_module \<Rightarrow> queue_state \<Rightarrow> queue_state option" where
  "module_queue 0 d m q = None"
| "module_queue (Suc n) d m q =
     (if mod_name m \<in> snd q then Some q
      else
        (case fold (\<lambda>c acc.
                 (case acc of
                    None \<Rightarrow> None
                  | Some q' \<Rightarrow>
                      (case d (cell_type c) of
                         None \<Rightarrow> Some q'
                       | Some submodule \<Rightarrow> module_queue n d submodule q')))
               (mod_cells m) (Some q) of
           None \<Rightarrow> None
         | Some (modules_sorted, modules_processed) \<Rightarrow>
             Some (modules_sorted @ [m], insert (mod_name m) modules_processed)))"

text \<open>The loop over the selected modules that fills \<^verbatim>\<open>modules_sorted\<close>.\<close>

definition modules_sorted_of ::
  "nat \<Rightarrow> design \<Rightarrow> rtlil_module list \<Rightarrow> queue_state option" where
  "modules_sorted_of n d selected_modules =
     fold (\<lambda>m acc. (case acc of None \<Rightarrow> None | Some q \<Rightarrow> module_queue n d m q))
       selected_modules (Some ([], {}))"

text \<open>The instantiation relation on module names: \<open>(T, M)\<close> when a cell of \<open>M\<close> has type \<open>T\<close>
  and \<open>T\<close> is a module of the design.\<close>

definition instantiates :: "design \<Rightarrow> (idstring \<times> idstring) set" where
  "instantiates d =
     {(T, M). \<exists>m c. d M = Some m \<and> c \<in> set (mod_cells m) \<and> cell_type c = T \<and> d T \<noteq> None}"

text \<open>The module table is keyed by the modules' own names.\<close>

definition design_ok :: "design \<Rightarrow> bool" where
  "design_ok d = (\<forall>n m. d n = Some m \<longrightarrow> mod_name m = n)"

text \<open>\<open>a\<close> stands strictly before \<open>b\<close> in the list.\<close>

definition appears_before :: "'a list \<Rightarrow> 'a \<Rightarrow> 'a \<Rightarrow> bool" where
  "appears_before xs a b = (b \<in> set xs \<and> a \<in> set (takeWhile (\<lambda>x. x \<noteq> b) xs))"

definition queue_inv :: "design \<Rightarrow> queue_state \<Rightarrow> bool" where
  "queue_inv d q =
     (snd q = mod_name ` set (fst q) \<and> distinct (map mod_name (fst q)) \<and>
      (\<forall>M\<in>set (fst q). d (mod_name M) = Some M) \<and>
      (\<forall>M\<in>set (fst q). \<forall>c\<in>set (mod_cells M). \<forall>T. d (cell_type c) = Some T \<longrightarrow>
          appears_before (fst q) T M))"

definition queue_cell :: "nat \<Rightarrow> design \<Rightarrow> cell \<Rightarrow> queue_state option \<Rightarrow> queue_state option" where
  "queue_cell n d c acc =
     (case acc of
        None \<Rightarrow> None
      | Some q' \<Rightarrow>
          (case d (cell_type c) of
             None \<Rightarrow> Some q'
           | Some submodule \<Rightarrow> module_queue n d submodule q'))"

lemma module_queue_Suc:
  "module_queue (Suc n) d m q =
     (if mod_name m \<in> snd q then Some q
      else (case fold (queue_cell n d) (mod_cells m) (Some q) of
              None \<Rightarrow> None
            | Some (s, p) \<Rightarrow> Some (s @ [m], insert (mod_name m) p)))"
  unfolding queue_cell_def by simp

lemma appears_before_append:
  "appears_before xs a b \<Longrightarrow> appears_before (xs @ ys) a b"
  by (auto simp: appears_before_def takeWhile_append)

lemma appears_before_snoc:
  "a \<in> set xs \<Longrightarrow> b \<notin> set xs \<Longrightarrow> appears_before (xs @ [b]) a b"
  by (auto simp: appears_before_def takeWhile_append)

lemma queue_inv_append:
  assumes "queue_inv d (s, p)" "d (mod_name m) = Some m" "mod_name m \<notin> p"
    and "\<forall>c\<in>set (mod_cells m). \<forall>T. d (cell_type c) = Some T \<longrightarrow> T \<in> set s"
  shows "queue_inv d (s @ [m], insert (mod_name m) p)"
proof -
  have m_notin: "m \<notin> set s" using assms(1,3) by (auto simp: queue_inv_def)
  show ?thesis
    using assms m_notin
    unfolding queue_inv_def
    by (auto intro: appears_before_append appears_before_snoc)
qed


definition queue_post :: "design \<Rightarrow> idstring set \<Rightarrow> queue_state \<Rightarrow> queue_state \<Rightarrow> bool" where
  "queue_post d D q q' =
     (queue_inv d q' \<and> (\<exists>ys. fst q' = fst q @ ys \<and> mod_name ` set ys \<subseteq> D))"

lemma queue_post_refl: "queue_inv d q \<Longrightarrow> queue_post d D q q"
  by (simp add: queue_post_def)

lemma queue_post_trans:
  "queue_post d D q q1 \<Longrightarrow> queue_post d D q1 q2 \<Longrightarrow> queue_post d D q q2"
proof -
  assume a: "queue_post d D q q1" and b: "queue_post d D q1 q2"
  from a obtain ys where ys: "fst q1 = fst q @ ys" "mod_name ` set ys \<subseteq> D"
    unfolding queue_post_def by blast
  from b obtain zs where zs: "fst q2 = fst q1 @ zs" "mod_name ` set zs \<subseteq> D"
    unfolding queue_post_def by blast
  have "fst q2 = fst q @ (ys @ zs)" using ys zs by simp
  moreover have "mod_name ` set (ys @ zs) \<subseteq> D" using ys zs by auto
  moreover have "queue_inv d q2" using b unfolding queue_post_def by blast
  ultimately show ?thesis unfolding queue_post_def by blast
qed

lemma queue_post_mono: "queue_post d D q q' \<Longrightarrow> D \<subseteq> E \<Longrightarrow> queue_post d E q q'"
  by (auto simp: queue_post_def)

lemma queue_post_snd:
  "queue_inv d q \<Longrightarrow> queue_post d D q q' \<Longrightarrow> snd q \<subseteq> snd q'"
  by (auto simp: queue_post_def queue_inv_def)

lemma fold_queue_cell_None: "fold (queue_cell n d) cs None = None"
  by (induction cs) (simp_all add: queue_cell_def)

lemma queue_cells_total:
  assumes "\<forall>c\<in>set cs. \<forall>T. d (cell_type c) = Some T \<longrightarrow>
      (\<exists>N. \<forall>n\<ge>N. \<forall>q. queue_inv d q \<longrightarrow>
         (\<exists>q'. module_queue n d T q = Some q' \<and> queue_post d D q q' \<and> mod_name T \<in> snd q'))"
  shows "\<exists>N. \<forall>n\<ge>N. \<forall>q. queue_inv d q \<longrightarrow>
      (\<exists>q'. fold (queue_cell n d) cs (Some q) = Some q' \<and> queue_post d D q q' \<and>
         (\<forall>c\<in>set cs. \<forall>T. d (cell_type c) = Some T \<longrightarrow> mod_name T \<in> snd q'))"
  using assms
proof (induction cs)
  case Nil
  then show ?case by (auto intro: queue_post_refl)
next
  case (Cons c cs)
  from Cons obtain N1 where N1: "\<forall>n\<ge>N1. \<forall>q. queue_inv d q \<longrightarrow>
      (\<exists>q'. fold (queue_cell n d) cs (Some q) = Some q' \<and> queue_post d D q q' \<and>
         (\<forall>c\<in>set cs. \<forall>T. d (cell_type c) = Some T \<longrightarrow> mod_name T \<in> snd q'))"
    by auto
  show ?case
  proof (cases "d (cell_type c)")
    case None
    have "\<forall>n\<ge>N1. \<forall>q. queue_inv d q \<longrightarrow>
      (\<exists>q'. fold (queue_cell n d) (c # cs) (Some q) = Some q' \<and> queue_post d D q q' \<and>
         (\<forall>c\<in>set (c # cs). \<forall>T. d (cell_type c) = Some T \<longrightarrow> mod_name T \<in> snd q'))"
      using N1 None by (simp add: queue_cell_def)
    then show ?thesis by blast
  next
    case (Some T)
    with Cons.prems obtain N2 where N2: "\<forall>n\<ge>N2. \<forall>q. queue_inv d q \<longrightarrow>
         (\<exists>q'. module_queue n d T q = Some q' \<and> queue_post d D q q' \<and> mod_name T \<in> snd q')"
      by auto
    have "\<forall>n\<ge>max N1 N2. \<forall>q. queue_inv d q \<longrightarrow>
      (\<exists>q'. fold (queue_cell n d) (c # cs) (Some q) = Some q' \<and> queue_post d D q q' \<and>
         (\<forall>c\<in>set (c # cs). \<forall>T. d (cell_type c) = Some T \<longrightarrow> mod_name T \<in> snd q'))"
    proof (intro allI impI)
      fix n q assume n: "max N1 N2 \<le> n" and q: "queue_inv d q"
      have "N2 \<le> n" "N1 \<le> n" using n by simp_all
      from N2 [rule_format, OF \<open>N2 \<le> n\<close> q]
      obtain q1 where q1: "module_queue n d T q = Some q1"
        "queue_post d D q q1" "mod_name T \<in> snd q1" by blast
      have inv1: "queue_inv d q1" using q1(2) by (simp add: queue_post_def)
      from N1 [rule_format, OF \<open>N1 \<le> n\<close> inv1]
      obtain q2 where q2: "fold (queue_cell n d) cs (Some q1) = Some q2"
        "queue_post d D q1 q2"
        "\<forall>c\<in>set cs. \<forall>T. d (cell_type c) = Some T \<longrightarrow> mod_name T \<in> snd q2" by blast
      have "mod_name T \<in> snd q2" using q1(3) queue_post_snd [OF inv1 q2(2)] by auto
      moreover have "fold (queue_cell n d) (c # cs) (Some q) = Some q2"
        using q1(1) q2(1) Some by (simp add: queue_cell_def)
      ultimately show "\<exists>q'. fold (queue_cell n d) (c # cs) (Some q) = Some q' \<and> queue_post d D q q' \<and>
         (\<forall>c\<in>set (c # cs). \<forall>T. d (cell_type c) = Some T \<longrightarrow> mod_name T \<in> snd q')"
        using q2(3) queue_post_trans [OF q1(2) q2(2)] Some by auto
    qed
    then show ?thesis by blast
  qed
qed


lemma design_okD: "design_ok d \<Longrightarrow> d n = Some m \<Longrightarrow> mod_name m = n"
  unfolding design_ok_def by blast

lemma queue_inv_lookup: "queue_inv d q \<Longrightarrow> M \<in> set (fst q) \<Longrightarrow> d (mod_name M) = Some M"
  unfolding queue_inv_def by blast

lemma queue_inv_snd: "queue_inv d q \<Longrightarrow> snd q = mod_name ` set (fst q)"
  unfolding queue_inv_def by blast

lemma instantiatesI:
  "d M = Some m \<Longrightarrow> c \<in> set (mod_cells m) \<Longrightarrow> d (cell_type c) = Some T \<Longrightarrow>
   (cell_type c, M) \<in> instantiates d"
  unfolding instantiates_def by blast

lemma module_queue_total:
  assumes ok: "design_ok d" and wf: "wf (instantiates d)"
  shows "d x = Some m \<Longrightarrow>
     \<exists>N. \<forall>n\<ge>N. \<forall>q. queue_inv d q \<longrightarrow>
        (\<exists>q'. module_queue n d m q = Some q' \<and>
           queue_post d {T. (T, x) \<in> (instantiates d)\<^sup>*} q q' \<and> x \<in> snd q')"
  using wf
proof (induction x arbitrary: m rule: wf_induct_rule)
  case (less x)
  let ?D = "{T. (T, x) \<in> (instantiates d)\<^sup>+}"
  have name: "mod_name m = x" using design_okD [OF ok less.prems] .
  have children: "\<forall>c\<in>set (mod_cells m). \<forall>T. d (cell_type c) = Some T \<longrightarrow>
      (\<exists>N. \<forall>n\<ge>N. \<forall>q. queue_inv d q \<longrightarrow>
         (\<exists>q'. module_queue n d T q = Some q' \<and> queue_post d ?D q q' \<and> mod_name T \<in> snd q'))"
  proof (intro ballI allI impI)
    fix c T assume c: "c \<in> set (mod_cells m)" and T: "d (cell_type c) = Some T"
    have edge: "(cell_type c, x) \<in> instantiates d"
      using instantiatesI [OF less.prems c T] .
    have nT: "mod_name T = cell_type c" using design_okD [OF ok T] .
    from less.IH [OF edge T] obtain N where N: "\<forall>n\<ge>N. \<forall>q. queue_inv d q \<longrightarrow>
        (\<exists>q'. module_queue n d T q = Some q' \<and>
           queue_post d {U. (U, cell_type c) \<in> (instantiates d)\<^sup>*} q q' \<and> cell_type c \<in> snd q')"
      by blast
    have sub: "{U. (U, cell_type c) \<in> (instantiates d)\<^sup>*} \<subseteq> ?D"
      using edge by (auto intro: rtrancl_into_trancl1)
    have "\<forall>n\<ge>N. \<forall>q. queue_inv d q \<longrightarrow>
         (\<exists>q'. module_queue n d T q = Some q' \<and> queue_post d ?D q q' \<and> mod_name T \<in> snd q')"
    proof (intro allI impI)
      fix n q assume "N \<le> n" "queue_inv d q"
      with N obtain q' where a: "module_queue n d T q = Some q'"
        and b: "queue_post d {U. (U, cell_type c) \<in> (instantiates d)\<^sup>*} q q'"
        and c': "cell_type c \<in> snd q'"
        by blast
      have "queue_post d ?D q q'" using queue_post_mono [OF b sub] .
      then show "\<exists>q'. module_queue n d T q = Some q' \<and> queue_post d ?D q q' \<and> mod_name T \<in> snd q'"
        using a c' nT by simp
    qed
    then show "\<exists>N. \<forall>n\<ge>N. \<forall>q. queue_inv d q \<longrightarrow>
         (\<exists>q'. module_queue n d T q = Some q' \<and> queue_post d ?D q q' \<and> mod_name T \<in> snd q')"
      by blast
  qed
  from queue_cells_total [OF children] obtain N where N: "\<forall>n\<ge>N. \<forall>q. queue_inv d q \<longrightarrow>
      (\<exists>q'. fold (queue_cell n d) (mod_cells m) (Some q) = Some q' \<and> queue_post d ?D q q' \<and>
         (\<forall>c\<in>set (mod_cells m). \<forall>T. d (cell_type c) = Some T \<longrightarrow> mod_name T \<in> snd q'))"
    by blast
  have irrefl: "x \<notin> ?D"
  proof
    assume "x \<in> ?D"
    then have "(x, x) \<in> (instantiates d)\<^sup>+" by simp
    moreover have "wf ((instantiates d)\<^sup>+)" using wf by (rule wf_trancl)
    ultimately show False by (simp add: wf_not_refl)
  qed
  have "\<forall>n\<ge>Suc N. \<forall>q. queue_inv d q \<longrightarrow>
        (\<exists>q'. module_queue n d m q = Some q' \<and>
           queue_post d {T. (T, x) \<in> (instantiates d)\<^sup>*} q q' \<and> x \<in> snd q')"
  proof (intro allI impI)
    fix n q assume n: "Suc N \<le> n" and q: "queue_inv d q"
    then obtain k where k: "n = Suc k" "N \<le> k" by (cases n) auto
    show "\<exists>q'. module_queue n d m q = Some q' \<and>
           queue_post d {T. (T, x) \<in> (instantiates d)\<^sup>*} q q' \<and> x \<in> snd q'"
    proof (cases "x \<in> snd q")
      case True
      then show ?thesis using k name q by (auto simp: module_queue_Suc simp del: module_queue.simps intro: queue_post_refl)
    next
      case False
      from N [rule_format, OF k(2) q] obtain q' where q':
        "fold (queue_cell k d) (mod_cells m) (Some q) = Some q'"
        "queue_post d ?D q q'"
        "\<forall>c\<in>set (mod_cells m). \<forall>T. d (cell_type c) = Some T \<longrightarrow> mod_name T \<in> snd q'"
        by blast
      obtain s p where q'_eq: "q' = (s, p)" by (cases q')
      note sp = q' [unfolded q'_eq snd_conv]
      from sp(2) obtain ys where ys: "s = fst q @ ys" "mod_name ` set ys \<subseteq> ?D"
        and inv: "queue_inv d (s, p)"
        unfolding queue_post_def by auto
      have p: "p = mod_name ` set s" using queue_inv_snd [OF inv] by simp
      have "snd q = mod_name ` set (fst q)" using queue_inv_snd [OF q] .
      with False ys irrefl have notin: "mod_name m \<notin> p"
        unfolding p name by auto
      have kids: "\<forall>c\<in>set (mod_cells m). \<forall>T. d (cell_type c) = Some T \<longrightarrow> T \<in> set s"
      proof (intro ballI allI impI)
        fix c T assume c: "c \<in> set (mod_cells m)" and T: "d (cell_type c) = Some T"
        with sp(3) have "mod_name T \<in> p" by blast
        then obtain T' where T': "T' \<in> set s" "mod_name T' = mod_name T" unfolding p by auto
        have "d (mod_name T') = Some T'" using queue_inv_lookup [OF inv] T'(1) by simp
        moreover have "d (mod_name T) = Some T" using design_okD [OF ok T] T by simp
        ultimately have "Some T' = Some T" using T'(2) by (simp only:)
        then show "T \<in> set s" using T'(1) by simp
      qed
      have inv': "queue_inv d (s @ [m], insert (mod_name m) p)"
        using queue_inv_append [OF inv _ notin kids] less.prems name by simp
      have "module_queue n d m q = Some (s @ [m], insert (mod_name m) p)"
        using False sp(1) k name by (simp add: module_queue_Suc del: module_queue.simps)
      moreover have "queue_post d {T. (T, x) \<in> (instantiates d)\<^sup>*} q (s @ [m], insert (mod_name m) p)"
        unfolding queue_post_def using inv' ys name by (auto intro: trancl_into_rtrancl)
      ultimately show ?thesis using name by simp
    qed
  qed
  then show ?case by blast
qed


lemma queue_inv_empty: "queue_inv d ([], {})"
  by (simp add: queue_inv_def)

definition queue_root :: "nat \<Rightarrow> design \<Rightarrow> rtlil_module \<Rightarrow> queue_state option \<Rightarrow> queue_state option" where
  "queue_root n d m acc = (case acc of None \<Rightarrow> None | Some q \<Rightarrow> module_queue n d m q)"

lemma modules_sorted_of_alt:
  "modules_sorted_of n d rs = fold (queue_root n d) rs (Some ([], {}))"
  unfolding modules_sorted_of_def queue_root_def ..

lemma queue_roots_total:
  assumes ok: "design_ok d" and wf: "wf (instantiates d)"
    and roots: "\<forall>r\<in>set rs. d (mod_name r) = Some r"
  shows "\<exists>N. \<forall>n\<ge>N. \<forall>q. queue_inv d q \<longrightarrow>
      (\<exists>q'. fold (queue_root n d) rs (Some q) = Some q' \<and> queue_post d UNIV q q' \<and>
         mod_name ` set rs \<subseteq> snd q')"
  using roots
proof (induction rs)
  case Nil
  then show ?case by (auto intro: queue_post_refl)
next
  case (Cons r rs)
  then obtain N1 where N1: "\<forall>n\<ge>N1. \<forall>q. queue_inv d q \<longrightarrow>
      (\<exists>q'. fold (queue_root n d) rs (Some q) = Some q' \<and> queue_post d UNIV q q' \<and>
         mod_name ` set rs \<subseteq> snd q')"
    by auto
  have r: "d (mod_name r) = Some r" using Cons.prems by simp
  from module_queue_total [OF ok wf r] obtain N2 where N2: "\<forall>n\<ge>N2. \<forall>q. queue_inv d q \<longrightarrow>
        (\<exists>q'. module_queue n d r q = Some q' \<and>
           queue_post d {T. (T, mod_name r) \<in> (instantiates d)\<^sup>*} q q' \<and> mod_name r \<in> snd q')"
    by blast
  have "\<forall>n\<ge>max N1 N2. \<forall>q. queue_inv d q \<longrightarrow>
      (\<exists>q'. fold (queue_root n d) (r # rs) (Some q) = Some q' \<and> queue_post d UNIV q q' \<and>
         mod_name ` set (r # rs) \<subseteq> snd q')"
  proof (intro allI impI)
    fix n q assume n: "max N1 N2 \<le> n" and q: "queue_inv d q"
    have le: "N2 \<le> n" "N1 \<le> n" using n by simp_all
    from N2 [rule_format, OF le(1) q] obtain q1 where q1: "module_queue n d r q = Some q1"
      "queue_post d {T. (T, mod_name r) \<in> (instantiates d)\<^sup>*} q q1" "mod_name r \<in> snd q1"
      by blast
    have post1: "queue_post d UNIV q q1" using queue_post_mono [OF q1(2)] by simp
    have inv1: "queue_inv d q1" using q1(2) by (simp add: queue_post_def)
    from N1 [rule_format, OF le(2) inv1] obtain q2 where q2:
      "fold (queue_root n d) rs (Some q1) = Some q2" "queue_post d UNIV q1 q2"
      "mod_name ` set rs \<subseteq> snd q2"
      by blast
    have "mod_name r \<in> snd q2" using q1(3) queue_post_snd [OF inv1 q2(2)] by auto
    moreover have "fold (queue_root n d) (r # rs) (Some q) = Some q2"
      using q1(1) q2(1) by (simp add: queue_root_def)
    ultimately show "\<exists>q'. fold (queue_root n d) (r # rs) (Some q) = Some q' \<and>
        queue_post d UNIV q q' \<and> mod_name ` set (r # rs) \<subseteq> snd q'"
      using q2(3) queue_post_trans [OF post1 q2(2)] by simp
  qed
  then show ?case by blast
qed

lemma queue_inv_closed:
  assumes ok: "design_ok d" and inv: "queue_inv d q"
    and TU: "(T, U) \<in> (instantiates d)\<^sup>*" and U: "U \<in> snd q"
  shows "T \<in> snd q"
  using TU U
proof (induction rule: converse_rtrancl_induct)
  case base
  then show ?case .
next
  case (step T V)
  then have V: "V \<in> snd q" by simp
  then obtain M where M: "M \<in> set (fst q)" "mod_name M = V"
    using queue_inv_snd [OF inv] by auto
  have dM: "d V = Some M" using queue_inv_lookup [OF inv M(1)] M(2) by simp
  from step.hyps(1) obtain m c where mc: "d V = Some m" "c \<in> set (mod_cells m)"
    "cell_type c = T" "d T \<noteq> None"
    unfolding instantiates_def by blast
  then obtain T' where T': "d (cell_type c) = Some T'" by auto
  have "m = M" using mc(1) dM by simp
  then have "appears_before (fst q) T' M"
    using inv M(1) mc(2) T' unfolding queue_inv_def by blast
  then have "T' \<in> set (fst q)"
    unfolding appears_before_def by (auto dest: set_takeWhileD)
  moreover have "mod_name T' = T" using design_okD [OF ok T'] mc(3) by simp
  ultimately show ?case using queue_inv_snd [OF inv] by auto
qed

lemma finite_instantiates: "finite (dom d) \<Longrightarrow> finite (instantiates d)"
proof -
  assume "finite (dom d)"
  then have "finite (dom d \<times> dom d)" by simp
  moreover have "instantiates d \<subseteq> dom d \<times> dom d"
    unfolding instantiates_def by auto
  ultimately show ?thesis by (rule rev_finite_subset)
qed

text \<open>
  C6. On a finite design whose instantiation relation is acyclic, the traversal from the
  selected modules returns whenever it is given enough recursion depth, and the sequence
  it returns lists no module twice, consists of modules of the design (each entry is the
  module the design holds under that name), contains every module instantiated directly
  or transitively from a selected module (and the selected modules themselves), and has,
  for every cell of module type \<open>T\<close> inside a listed module \<open>M\<close>, \<open>T\<close> strictly before \<open>M\<close>.
\<close>

theorem module_queue_order:
  assumes ok: "design_ok d" and fin: "finite (dom d)" and acyc: "acyclic (instantiates d)"
    and roots: "\<forall>r\<in>set selected_modules. d (mod_name r) = Some r"
  shows "\<exists>N. \<forall>n\<ge>N. \<exists>modules_sorted modules_processed.
      modules_sorted_of n d selected_modules = Some (modules_sorted, modules_processed) \<and>
      distinct (map mod_name modules_sorted) \<and>
      (\<forall>M\<in>set modules_sorted. d (mod_name M) = Some M) \<and>
      (\<forall>r\<in>set selected_modules. \<forall>T. (T, mod_name r) \<in> (instantiates d)\<^sup>* \<longrightarrow>
          T \<in> mod_name ` set modules_sorted) \<and>
      (\<forall>M\<in>set modules_sorted. \<forall>c\<in>set (mod_cells M). \<forall>T.
          d (cell_type c) = Some T \<longrightarrow> appears_before modules_sorted T M)"
proof -
  have wf: "wf (instantiates d)"
    using acyc finite_instantiates [OF fin] by (simp add: wf_iff_acyclic_if_finite)
  from queue_roots_total [OF ok wf roots] obtain N where N: "\<forall>n\<ge>N. \<forall>q. queue_inv d q \<longrightarrow>
      (\<exists>q'. fold (queue_root n d) selected_modules (Some q) = Some q' \<and> queue_post d UNIV q q' \<and>
         mod_name ` set selected_modules \<subseteq> snd q')"
    by blast
  have "\<forall>n\<ge>N. \<exists>modules_sorted modules_processed.
      modules_sorted_of n d selected_modules = Some (modules_sorted, modules_processed) \<and>
      distinct (map mod_name modules_sorted) \<and>
      (\<forall>M\<in>set modules_sorted. d (mod_name M) = Some M) \<and>
      (\<forall>r\<in>set selected_modules. \<forall>T. (T, mod_name r) \<in> (instantiates d)\<^sup>* \<longrightarrow>
          T \<in> mod_name ` set modules_sorted) \<and>
      (\<forall>M\<in>set modules_sorted. \<forall>c\<in>set (mod_cells M). \<forall>T.
          d (cell_type c) = Some T \<longrightarrow> appears_before modules_sorted T M)"
  proof (intro allI impI)
    fix n assume n: "N \<le> n"
    from N [rule_format, OF n queue_inv_empty] obtain q' where q':
      "fold (queue_root n d) selected_modules (Some ([], {})) = Some q'"
      "queue_post d UNIV ([], {}) q'" "mod_name ` set selected_modules \<subseteq> snd q'"
      by blast
    obtain s p where sp: "q' = (s, p)" by (cases q')
    have inv: "queue_inv d (s, p)" using q'(2) sp by (simp add: queue_post_def)
    have p: "p = mod_name ` set s" using queue_inv_snd [OF inv] by simp
    have cover: "\<forall>r\<in>set selected_modules. \<forall>T. (T, mod_name r) \<in> (instantiates d)\<^sup>* \<longrightarrow>
          T \<in> mod_name ` set s"
    proof (intro ballI allI impI)
      fix r T assume r: "r \<in> set selected_modules" and T: "(T, mod_name r) \<in> (instantiates d)\<^sup>*"
      have "mod_name r \<in> snd (s, p)" using q'(3) r sp by auto
      from queue_inv_closed [OF ok inv T this] show "T \<in> mod_name ` set s" using p by simp
    qed
    have "distinct (map mod_name s)" using inv by (simp add: queue_inv_def)
    moreover have "\<forall>M\<in>set s. d (mod_name M) = Some M"
      using queue_inv_lookup [OF inv] by simp
    moreover have "\<forall>M\<in>set s. \<forall>c\<in>set (mod_cells M). \<forall>T.
          d (cell_type c) = Some T \<longrightarrow> appears_before s T M"
      using inv unfolding queue_inv_def by simp
    moreover have "modules_sorted_of n d selected_modules = Some (s, p)"
      using q'(1) sp by (simp add: modules_sorted_of_alt)
    ultimately show "\<exists>modules_sorted modules_processed.
      modules_sorted_of n d selected_modules = Some (modules_sorted, modules_processed) \<and>
      distinct (map mod_name modules_sorted) \<and>
      (\<forall>M\<in>set modules_sorted. d (mod_name M) = Some M) \<and>
      (\<forall>r\<in>set selected_modules. \<forall>T. (T, mod_name r) \<in> (instantiates d)\<^sup>* \<longrightarrow>
          T \<in> mod_name ` set modules_sorted) \<and>
      (\<forall>M\<in>set modules_sorted. \<forall>c\<in>set (mod_cells M). \<forall>T.
          d (cell_type c) = Some T \<longrightarrow> appears_before modules_sorted T M)"
      using cover by blast
  qed
  then show ?thesis by blast
qed

text \<open>A two-module design: \<open>top\<close> instantiates \<open>sub\<close> and a primitive cell.\<close>

definition example_sub :: rtlil_module where
  "example_sub = \<lparr>mod_name = ''sub'', mod_attributes = [], mod_wires = [], mod_cells = [],
     mod_connections = [], ports = []\<rparr>"

definition example_top :: rtlil_module where
  "example_top = \<lparr>mod_name = ''top'', mod_attributes = [], mod_wires = [],
     mod_cells = [\<lparr>cell_name = ''u1'', cell_type = ''sub'', connections = []\<rparr>,
                  \<lparr>cell_name = ''u2'', cell_type = ''FDRE'', connections = []\<rparr>],
     mod_connections = [], ports = []\<rparr>"

definition example_design :: design where
  "example_design = [''sub'' \<mapsto> example_sub, ''top'' \<mapsto> example_top]"

lemma ex_lookup:
  "example_design n = (if n = ''top'' then Some example_top else if n = ''sub'' then Some example_sub else None)"
  unfolding example_design_def by simp

lemma ex_cells: "mod_cells example_sub = []"
  "mod_cells example_top = [\<lparr>cell_name = ''u1'', cell_type = ''sub'', connections = []\<rparr>,
                  \<lparr>cell_name = ''u2'', cell_type = ''FDRE'', connections = []\<rparr>]"
  "mod_name example_sub = ''sub''" "mod_name example_top = ''top''"
  by (simp_all add: example_sub_def example_top_def)

lemma example_instantiates: "instantiates example_design = {(''sub'', ''top'')}"
proof (rule set_eqI)
  fix e :: "idstring \<times> idstring"
  obtain T M where e: "e = (T, M)" by (cases e)
  have "(T, M) \<in> instantiates example_design \<longleftrightarrow> T = ''sub'' \<and> M = ''top''"
  proof
    assume "(T, M) \<in> instantiates example_design"
    then obtain m c where mc: "example_design M = Some m" "c \<in> set (mod_cells m)"
      "cell_type c = T" "example_design T \<noteq> None"
      unfolding instantiates_def by blast
    show "T = ''sub'' \<and> M = ''top''"
    proof (cases "M = ''top''")
      case True
      then have "m = example_top" using mc(1) by (simp add: ex_lookup)
      then have "T = ''sub'' \<or> T = ''FDRE''" using mc(2,3) by (auto simp: ex_cells)
      moreover have "example_design ''FDRE'' = None" by (simp add: ex_lookup)
      ultimately show ?thesis using mc(4) True by auto
    next
      case False
      then have "m = example_sub" using mc(1) by (simp add: ex_lookup split: if_splits)
      then show ?thesis using mc(2) by (simp add: ex_cells)
    qed
  next
    assume a: "T = ''sub'' \<and> M = ''top''"
    have "example_design ''top'' = Some example_top" by (simp add: ex_lookup)
    moreover have "\<lparr>cell_name = ''u1'', cell_type = ''sub'', connections = []\<rparr>
        \<in> set (mod_cells example_top)" by (simp add: ex_cells)
    moreover have "example_design ''sub'' \<noteq> None" by (simp add: ex_lookup)
    ultimately show "(T, M) \<in> instantiates example_design"
      unfolding instantiates_def using a by force
  qed
  then show "e \<in> instantiates example_design \<longleftrightarrow> e \<in> {(''sub'', ''top'')}"
    using e by simp
qed

theorem module_queue_order_witness:
  "design_ok example_design \<and> finite (dom example_design) \<and>
   acyclic (instantiates example_design) \<and>
   example_design (mod_name example_top) = Some example_top \<and>
   modules_sorted_of 2 example_design [example_top] =
     Some ([example_sub, example_top], {''sub'', ''top''}) \<and>
   (\<exists>N. \<forall>n\<ge>N. \<exists>modules_sorted modules_processed.
      modules_sorted_of n example_design [example_top] = Some (modules_sorted, modules_processed) \<and>
      distinct (map mod_name modules_sorted) \<and>
      (\<forall>M\<in>set modules_sorted. example_design (mod_name M) = Some M) \<and>
      (\<forall>r\<in>set [example_top]. \<forall>T. (T, mod_name r) \<in> (instantiates example_design)\<^sup>* \<longrightarrow>
          T \<in> mod_name ` set modules_sorted) \<and>
      (\<forall>M\<in>set modules_sorted. \<forall>c\<in>set (mod_cells M). \<forall>T.
          example_design (cell_type c) = Some T \<longrightarrow> appears_before modules_sorted T M))"
proof -
  have ok: "design_ok example_design"
    unfolding design_ok_def by (auto simp: ex_lookup ex_cells split: if_splits)
  have fin: "finite (dom example_design)"
    unfolding example_design_def by simp
  have "acyclic ({} :: (idstring \<times> idstring) set)"
    by (simp add: acyclic_def)
  then have acyc: "acyclic (instantiates example_design)"
    unfolding example_instantiates by (simp add: acyclic_insert)
  have root: "example_design (mod_name example_top) = Some example_top"
    unfolding example_design_def example_top_def by simp
  have roots: "\<forall>r\<in>set [example_top]. example_design (mod_name r) = Some r"
    using root by simp
  have run: "modules_sorted_of 2 example_design [example_top] =
     Some ([example_sub, example_top], {''sub'', ''top''})"
    unfolding modules_sorted_of_def example_design_def example_top_def example_sub_def
    by (simp add: numeral_2_eq_2 insert_commute)
  note concl = module_queue_order [OF ok fin acyc roots]
  show ?thesis
    by (intro conjI ok fin acyc root run concl)
qed

section \<open>Tag tables and inverter propagation\<close>

text \<open>
  Exceptions and failed assertions of the kernel calls the pass makes: \<^verbatim>\<open>getPort\<close> of a
  port the cell does not have and an index past the end of a signal throw
  \<^verbatim>\<open>std::out_of_range\<close>; \<^verbatim>\<open>as_bit\<close> of a signal that is not one bit wide fails an
  assertion. Either aborts the pass.
\<close>

datatype error = OutOfRange | AssertionFailed

type_synonym port_bit = "idstring \<times> idstring \<times> nat"

record tag_tables =
  sink_ports :: "port_bit set"
  buf_ports :: "port_bit set"
  inv_ports_out :: "port_bit \<Rightarrow> (idstring \<times> nat) option"
  inv_ports_in :: "port_bit \<Rightarrow> (idstring \<times> nat) option"

record tag_sets =
  sink_wire_bits :: "sigbit set"
  buf_wire_bits :: "sigbit set"

fun fold_err :: "('a \<Rightarrow> 's \<Rightarrow> error + 's) \<Rightarrow> 'a list \<Rightarrow> 's \<Rightarrow> error + 's" where
  "fold_err f [] s = Inr s"
| "fold_err f (x # xs) s = (case f x s of Inl e \<Rightarrow> Inl e | Inr s' \<Rightarrow> fold_err f xs s')"

definition getPort :: "cell \<Rightarrow> idstring \<Rightarrow> error + sigspec" where
  "getPort c portname =
     (case map_of (connections c) portname of None \<Rightarrow> Inl OutOfRange | Some sig \<Rightarrow> Inr sig)"

definition sig_at :: "sigspec \<Rightarrow> nat \<Rightarrow> error + sigbit" where
  "sig_at sig i = (if i < length sig then Inr (sig ! i) else Inl OutOfRange)"

text \<open>\<^verbatim>\<open>cell->getPort(name)[index]\<close>.\<close>

definition getPort_bit :: "cell \<Rightarrow> idstring \<times> nat \<Rightarrow> error + sigbit" where
  "getPort_bit c slot =
     (case getPort c (fst slot) of Inl e \<Rightarrow> Inl e | Inr sig \<Rightarrow> sig_at sig (snd slot))"

text \<open>
  The three nested loops \<^verbatim>\<open>for cell, for port, for i\<close> visit the bits of all cell
  connections in this order; each visit carries the cell, the port name, the index and
  the bit found there.
\<close>

definition cell_port_bits :: "cell list \<Rightarrow> (cell \<times> idstring \<times> nat \<times> sigbit) list" where
  "cell_port_bits cs =
     concat (map (\<lambda>c.
       concat (map (\<lambda>(p, sig). map (\<lambda>i. (c, p, i, sig ! i)) [0..<length sig])
         (connections c))) cs)"

text \<open>First and second loop: the module-local sink set and buffered set.\<close>

definition collect_tag_sets :: "(sigbit \<Rightarrow> sigbit) \<Rightarrow> tag_tables \<Rightarrow> cell list \<Rightarrow> tag_sets" where
  "collect_tag_sets sigmap tabs cs =
     \<lparr>sink_wire_bits =
        fold (\<lambda>(c, p, i, b) acc.
                if (cell_type c, p, i) \<in> sink_ports tabs then insert (sigmap b) acc else acc)
          (cell_port_bits cs) {},
      buf_wire_bits =
        fold (\<lambda>(c, p, i, b) acc.
                if (cell_type c, p, i) \<in> buf_ports tabs then insert (sigmap b) acc else acc)
          (cell_port_bits cs) {}\<rparr>"

text \<open>
  The body of the third loop for one connection bit, in its two parts. The state is the
  two tag sets and the \<^verbatim>\<open>retry\<close> flag.

  First part: the output of an inverter that is connected to a sink and not buffered is
  marked as buffered, and the inverter's input is made a sink instead.
\<close>

definition inverter_output_rule ::
  "(sigbit \<Rightarrow> sigbit) \<Rightarrow> tag_tables \<Rightarrow> cell \<times> idstring \<times> nat \<times> sigbit \<Rightarrow>
   tag_sets \<times> bool \<Rightarrow> error + (tag_sets \<times> bool)" where
  "inverter_output_rule sigmap tabs x st =
     (case x of (c, p, i, b) \<Rightarrow>
      case st of (ts, retry) \<Rightarrow>
        (case inv_ports_out tabs (cell_type c, p, i) of
           None \<Rightarrow> Inr (ts, retry)
         | Some other \<Rightarrow>
             if sigmap b \<notin> buf_wire_bits ts \<and> sigmap b \<in> sink_wire_bits ts then
               (case getPort_bit c other of
                  Inl e \<Rightarrow> Inl e
                | Inr other_bit \<Rightarrow>
                    Inr (\<lparr>sink_wire_bits = insert (sigmap other_bit) (sink_wire_bits ts),
                          buf_wire_bits = insert (sigmap b) (buf_wire_bits ts)\<rparr>, True))
             else Inr (ts, retry)))"

text \<open>
  Second part: when the input of an inverter is marked as buffered, its output is marked
  as buffered as well.
\<close>

definition inverter_input_rule ::
  "(sigbit \<Rightarrow> sigbit) \<Rightarrow> tag_tables \<Rightarrow> cell \<times> idstring \<times> nat \<times> sigbit \<Rightarrow>
   tag_sets \<times> bool \<Rightarrow> error + (tag_sets \<times> bool)" where
  "inverter_input_rule sigmap tabs x st =
     (case x of (c, p, i, b) \<Rightarrow>
      case st of (ts, retry) \<Rightarrow>
        (case inv_ports_in tabs (cell_type c, p, i) of
           None \<Rightarrow> Inr (ts, retry)
         | Some other \<Rightarrow>
             if sigmap b \<in> buf_wire_bits ts then
               (case getPort_bit c other of
                  Inl e \<Rightarrow> Inl e
                | Inr other_bit \<Rightarrow>
                    if sigmap other_bit \<notin> buf_wire_bits ts then
                      Inr (ts\<lparr>buf_wire_bits := insert (sigmap other_bit) (buf_wire_bits ts)\<rparr>,
                           True)
                    else Inr (ts, retry))
             else Inr (ts, retry)))"

definition propagate_bit ::
  "(sigbit \<Rightarrow> sigbit) \<Rightarrow> tag_tables \<Rightarrow> cell \<times> idstring \<times> nat \<times> sigbit \<Rightarrow>
   tag_sets \<times> bool \<Rightarrow> error + (tag_sets \<times> bool)" where
  "propagate_bit sigmap tabs x st =
     (case inverter_output_rule sigmap tabs x st of
        Inl e \<Rightarrow> Inl e
      | Inr st1 \<Rightarrow> inverter_input_rule sigmap tabs x st1)"

text \<open>One pass of the \<^verbatim>\<open>while (retry)\<close> body: \<^verbatim>\<open>retry = false\<close>, then the scan.\<close>

definition propagate_scan ::
  "(sigbit \<Rightarrow> sigbit) \<Rightarrow> tag_tables \<Rightarrow> cell list \<Rightarrow> tag_sets \<Rightarrow> error + (tag_sets \<times> bool)" where
  "propagate_scan sigmap tabs cs ts =
     fold_err (propagate_bit sigmap tabs) (cell_port_bits cs) (ts, False)"

text \<open>The canonical bits of the module's cell connections.\<close>

definition cell_bits :: "cell \<Rightarrow> sigbit set" where
  "cell_bits c = (\<Union>(p, sig)\<in>set (connections c). set sig)"

definition module_bits :: "(sigbit \<Rightarrow> sigbit) \<Rightarrow> cell list \<Rightarrow> sigbit set" where
  "module_bits sigmap cs = sigmap ` (\<Union>c\<in>set cs. cell_bits c)"

lemma getPort_bit_in:
  assumes "getPort_bit c other = Inr ob"
  shows "ob \<in> cell_bits c"
proof -
  from assms obtain sig where sig: "map_of (connections c) (fst other) = Some sig"
    and at: "sig_at sig (snd other) = Inr ob"
    by (auto simp: getPort_bit_def getPort_def split: option.splits sum.splits)
  from at have "ob \<in> set sig" by (auto simp: sig_at_def split: if_splits)
  moreover have "(fst other, sig) \<in> set (connections c)" using sig by (rule map_of_SomeD)
  ultimately show ?thesis unfolding cell_bits_def by blast
qed

lemma cell_port_bits_in:
  assumes "(c, p, i, b) \<in> set (cell_port_bits cs)"
  shows "c \<in> set cs \<and> b \<in> cell_bits c"
  using assms unfolding cell_port_bits_def cell_bits_def by force

lemma module_bits_other:
  "c \<in> set cs \<Longrightarrow> getPort_bit c other = Inr ob \<Longrightarrow> sigmap ob \<in> module_bits sigmap cs"
proof -
  assume a: "c \<in> set cs" and b: "getPort_bit c other = Inr ob"
  have "ob \<in> (\<Union>c\<in>set cs. cell_bits c)" using a getPort_bit_in [OF b] by blast
  then show ?thesis unfolding module_bits_def by (rule imageI)
qed

lemma module_bits_slot:
  "(c, p, i, b) \<in> set (cell_port_bits cs) \<Longrightarrow> sigmap b \<in> module_bits sigmap cs"
proof -
  assume a: "(c, p, i, b) \<in> set (cell_port_bits cs)"
  have "b \<in> (\<Union>c\<in>set cs. cell_bits c)" using cell_port_bits_in [OF a] by blast
  then show ?thesis unfolding module_bits_def by (rule imageI)
qed

lemma finite_module_bits: "finite (module_bits sigmap cs)"
  unfolding module_bits_def cell_bits_def by auto

definition scan_rel :: "sigbit set \<Rightarrow> tag_sets \<times> bool \<Rightarrow> tag_sets \<times> bool \<Rightarrow> bool" where
  "scan_rel U st st' =
     (sink_wire_bits (fst st) \<subseteq> sink_wire_bits (fst st') \<and>
      buf_wire_bits (fst st) \<subseteq> buf_wire_bits (fst st') \<and>
      sink_wire_bits (fst st') \<subseteq> sink_wire_bits (fst st) \<union> U \<and>
      buf_wire_bits (fst st') \<subseteq> buf_wire_bits (fst st) \<union> U \<and>
      (snd st \<longrightarrow> snd st') \<and>
      (\<not> snd st' \<longrightarrow> fst st' = fst st) \<and>
      (snd st' \<and> \<not> snd st \<longrightarrow> buf_wire_bits (fst st) \<subset> buf_wire_bits (fst st')))"

lemma scan_rel_refl: "scan_rel U st st"
  by (simp add: scan_rel_def)

lemma scan_rel_trans:
  assumes "scan_rel U st0 st1" "scan_rel U st1 st2"
  shows "scan_rel U st0 st2"
  using assms unfolding scan_rel_def by (cases "snd st1") auto

lemma output_rule_rel:
  assumes x: "x \<in> set (cell_port_bits cs)"
    and step: "inverter_output_rule sigmap tabs x st = Inr st'"
  shows "scan_rel (module_bits sigmap cs) st st'"
proof -
  obtain c p i b where xe: "x = (c, p, i, b)" by (cases x)
  obtain ts retry where ste: "st = (ts, retry)" by (cases st)
  have x': "(c, p, i, b) \<in> set (cell_port_bits cs)" using x xe by simp
  have c: "c \<in> set cs" using cell_port_bits_in [OF x'] by simp
  have bit: "sigmap b \<in> module_bits sigmap cs" using module_bits_slot [OF x'] .
  show ?thesis
  proof (cases "inv_ports_out tabs (cell_type c, p, i)")
    case None
    then have "st' = st" using step by (simp add: xe ste inverter_output_rule_def)
    then show ?thesis by (simp add: scan_rel_refl)
  next
    case (Some other)
    show ?thesis
    proof (cases "sigmap b \<notin> buf_wire_bits ts \<and> sigmap b \<in> sink_wire_bits ts")
      case False
      then have "st' = st" using step Some
        by (auto simp: xe ste inverter_output_rule_def split: if_splits)
      then show ?thesis by (simp add: scan_rel_refl)
    next
      case True
      then obtain ob where ob: "getPort_bit c other = Inr ob"
        and st': "st' = (\<lparr>sink_wire_bits = insert (sigmap ob) (sink_wire_bits ts),
                          buf_wire_bits = insert (sigmap b) (buf_wire_bits ts)\<rparr>, True)"
        using step Some by (auto simp: xe ste inverter_output_rule_def split: sum.splits)
      have "sigmap ob \<in> module_bits sigmap cs" using module_bits_other [OF c ob] .
      then show ?thesis using True bit unfolding st' ste scan_rel_def by auto
    qed
  qed
qed

lemma input_rule_rel:
  assumes x: "x \<in> set (cell_port_bits cs)"
    and step: "inverter_input_rule sigmap tabs x st = Inr st'"
  shows "scan_rel (module_bits sigmap cs) st st'"
proof -
  obtain c p i b where xe: "x = (c, p, i, b)" by (cases x)
  obtain ts retry where ste: "st = (ts, retry)" by (cases st)
  have x': "(c, p, i, b) \<in> set (cell_port_bits cs)" using x xe by simp
  have c: "c \<in> set cs" using cell_port_bits_in [OF x'] by simp
  show ?thesis
  proof (cases "inv_ports_in tabs (cell_type c, p, i)")
    case None
    then have "st' = st" using step by (simp add: xe ste inverter_input_rule_def)
    then show ?thesis by (simp add: scan_rel_refl)
  next
    case (Some other)
    show ?thesis
    proof (cases "sigmap b \<in> buf_wire_bits ts")
      case False
      then have "st' = st" using step Some
        by (simp add: xe ste inverter_input_rule_def)
      then show ?thesis by (simp add: scan_rel_refl)
    next
      case True
      then obtain ob where ob: "getPort_bit c other = Inr ob"
        and st': "st' = (if sigmap ob \<notin> buf_wire_bits ts
                         then (ts\<lparr>buf_wire_bits := insert (sigmap ob) (buf_wire_bits ts)\<rparr>, True)
                         else (ts, retry))"
        using step Some by (auto simp: xe ste inverter_input_rule_def split: sum.splits if_splits)
      have "sigmap ob \<in> module_bits sigmap cs" using module_bits_other [OF c ob] .
      then show ?thesis unfolding st' ste scan_rel_def by auto
    qed
  qed
qed

lemma propagate_bit_rel:
  assumes x: "x \<in> set (cell_port_bits cs)"
    and step: "propagate_bit sigmap tabs x st = Inr st'"
  shows "scan_rel (module_bits sigmap cs) st st'"
proof -
  from step obtain st1 where a: "inverter_output_rule sigmap tabs x st = Inr st1"
    and b: "inverter_input_rule sigmap tabs x st1 = Inr st'"
    by (auto simp: propagate_bit_def split: sum.splits)
  show ?thesis
    using scan_rel_trans [OF output_rule_rel [OF x a] input_rule_rel [OF x b]] .
qed

lemma fold_err_rel:
  assumes "set xs \<subseteq> set (cell_port_bits cs)"
    and "fold_err (propagate_bit sigmap tabs) xs st = Inr st'"
  shows "scan_rel (module_bits sigmap cs) st st'"
  using assms
proof (induction xs arbitrary: st)
  case Nil
  then show ?case by (simp add: scan_rel_refl)
next
  case (Cons x xs)
  from Cons.prems(2) obtain st1 where a: "propagate_bit sigmap tabs x st = Inr st1"
    and b: "fold_err (propagate_bit sigmap tabs) xs st1 = Inr st'"
    by (auto split: sum.splits)
  have "x \<in> set (cell_port_bits cs)" using Cons.prems(1) by simp
  from propagate_bit_rel [OF this a] have r1: "scan_rel (module_bits sigmap cs) st st1" .
  have "scan_rel (module_bits sigmap cs) st1 st'" using Cons.IH [OF _ b] Cons.prems(1) by simp
  with r1 show ?case by (rule scan_rel_trans)
qed

lemma propagate_scan_rel:
  "propagate_scan sigmap tabs cs ts = Inr st' \<Longrightarrow>
   scan_rel (module_bits sigmap cs) (ts, False) st'"
  unfolding propagate_scan_def using fold_err_rel [of "cell_port_bits cs" cs] by simp

lemma propagate_scan_decreases:
  assumes "propagate_scan sigmap tabs cs ts = Inr (ts', True)"
  shows "card (module_bits sigmap cs - buf_wire_bits ts') <
         card (module_bits sigmap cs - buf_wire_bits ts)"
proof -
  from propagate_scan_rel [OF assms]
  have sub: "buf_wire_bits ts \<subset> buf_wire_bits ts'"
    and bound: "buf_wire_bits ts' \<subseteq> buf_wire_bits ts \<union> module_bits sigmap cs"
    by (simp_all add: scan_rel_def)
  have "module_bits sigmap cs - buf_wire_bits ts' \<subset> module_bits sigmap cs - buf_wire_bits ts"
    using sub bound by blast
  then show ?thesis
    by (intro psubset_card_mono finite_Diff finite_module_bits)
qed


text \<open>
  The \<^verbatim>\<open>while (retry)\<close> loop. Every pass that sets \<^verbatim>\<open>retry\<close> has added a canonical bit
  of the module to the buffered set, which is the measure of its termination.
\<close>

function propagate ::
  "(sigbit \<Rightarrow> sigbit) \<Rightarrow> tag_tables \<Rightarrow> cell list \<Rightarrow> tag_sets \<Rightarrow> error + tag_sets" where
  "propagate sigmap tabs cs ts =
     (case propagate_scan sigmap tabs cs ts of
        Inl e \<Rightarrow> Inl e
      | Inr (ts', retry) \<Rightarrow> if retry then propagate sigmap tabs cs ts' else Inr ts')"
  by pat_completeness auto
termination propagate
proof (relation "measure (\<lambda>(sigmap, tabs, cs, ts).
                    card (module_bits sigmap cs - buf_wire_bits ts))")
  show "wf (measure (\<lambda>(sigmap, tabs, cs, ts).
                    card (module_bits sigmap cs - buf_wire_bits ts)))"
    by simp
next
  fix sigmap :: "sigbit \<Rightarrow> sigbit" and tabs :: tag_tables and cs :: "cell list"
    and ts :: tag_sets and st ts' retry
  assume "propagate_scan sigmap tabs cs ts = Inr st" "(ts', retry) = st" "retry"
  then have "propagate_scan sigmap tabs cs ts = Inr (ts', True)" by simp
  from propagate_scan_decreases [OF this]
  show "((sigmap, tabs, cs, ts'), (sigmap, tabs, cs, ts)) \<in>
        measure (\<lambda>(sigmap, tabs, cs, ts). card (module_bits sigmap cs - buf_wire_bits ts))"
    by simp
qed

declare propagate.simps [simp del]

text \<open>The same loop with a bound on the number of passes; \<open>None\<close> is the bound reached.\<close>

fun propagate_fuel ::
  "nat \<Rightarrow> (sigbit \<Rightarrow> sigbit) \<Rightarrow> tag_tables \<Rightarrow> cell list \<Rightarrow> tag_sets \<Rightarrow>
   (error + tag_sets) option" where
  "propagate_fuel 0 sigmap tabs cs ts = None"
| "propagate_fuel (Suc n) sigmap tabs cs ts =
     (case propagate_scan sigmap tabs cs ts of
        Inl e \<Rightarrow> Some (Inl e)
      | Inr (ts', retry) \<Rightarrow>
          if retry then propagate_fuel n sigmap tabs cs ts' else Some (Inr ts'))"

lemma propagate_fuel_enough:
  "card (module_bits sigmap cs - buf_wire_bits ts) < n \<Longrightarrow>
   propagate_fuel n sigmap tabs cs ts = Some (propagate sigmap tabs cs ts)"
proof (induction n arbitrary: ts)
  case 0
  then show ?case by simp
next
  case (Suc n)
  show ?case
  proof (cases "propagate_scan sigmap tabs cs ts")
    case (Inl e)
    then show ?thesis by (simp add: propagate.simps [of sigmap tabs cs ts])
  next
    case (Inr st)
    obtain ts' retry where st: "st = (ts', retry)" by (cases st)
    show ?thesis
    proof (cases retry)
      case False
      then show ?thesis using Inr st by (simp add: propagate.simps [of sigmap tabs cs ts])
    next
      case True
      then have "propagate_scan sigmap tabs cs ts = Inr (ts', True)" using Inr st by simp
      from propagate_scan_decreases [OF this] Suc.prems
      have "card (module_bits sigmap cs - buf_wire_bits ts') < n" by simp
      from Suc.IH [OF this] show ?thesis
        using Inr st True by (simp add: propagate.simps [of sigmap tabs cs ts])
    qed
  qed
qed


lemma propagate_unfold:
  "propagate sigmap tabs cs ts =
     (case propagate_scan sigmap tabs cs ts of
        Inl e \<Rightarrow> Inl e
      | Inr (ts', retry) \<Rightarrow> if retry then propagate sigmap tabs cs ts' else Inr ts')"
  by (rule propagate.simps)

definition loop_rel :: "sigbit set \<Rightarrow> tag_sets \<Rightarrow> tag_sets \<Rightarrow> bool" where
  "loop_rel U ts ts' =
     (sink_wire_bits ts \<subseteq> sink_wire_bits ts' \<and> buf_wire_bits ts \<subseteq> buf_wire_bits ts' \<and>
      sink_wire_bits ts' \<subseteq> sink_wire_bits ts \<union> U \<and>
      buf_wire_bits ts' \<subseteq> buf_wire_bits ts \<union> U)"

lemma loop_rel_refl: "loop_rel U ts ts"
  by (simp add: loop_rel_def)

lemma loop_rel_trans: "loop_rel U a b \<Longrightarrow> loop_rel U b c \<Longrightarrow> loop_rel U a c"
  unfolding loop_rel_def by blast

lemma scan_rel_loop_rel: "scan_rel U (ts, r) (ts', r') \<Longrightarrow> loop_rel U ts ts'"
  by (simp add: scan_rel_def loop_rel_def)

lemma propagate_result:
  "propagate sigmap tabs cs ts = Inr ts' \<Longrightarrow>
   loop_rel (module_bits sigmap cs) ts ts' \<and>
   propagate_scan sigmap tabs cs ts' = Inr (ts', False)"
proof (induction sigmap tabs cs ts rule: propagate.induct)
  case (1 sigmap tabs cs ts)
  from "1.prems" obtain ts1 retry where scan: "propagate_scan sigmap tabs cs ts = Inr (ts1, retry)"
    by (subst (asm) propagate_unfold) (auto split: sum.splits)
  note rel = propagate_scan_rel [OF scan]
  show ?case
  proof (cases retry)
    case True
    then have "propagate sigmap tabs cs ts1 = Inr ts'"
      using "1.prems" scan by (subst (asm) propagate_unfold) simp
    from "1.IH" [OF scan refl True this]
    have "loop_rel (module_bits sigmap cs) ts1 ts'"
      and fin: "propagate_scan sigmap tabs cs ts' = Inr (ts', False)" by simp_all
    with scan_rel_loop_rel [OF rel] show ?thesis by (blast intro: loop_rel_trans)
  next
    case False
    then have "ts' = ts1" using "1.prems" scan by (subst (asm) propagate_unfold) simp
    moreover have "ts1 = ts" using rel False by (simp add: scan_rel_def)
    ultimately show ?thesis using scan False by (simp add: loop_rel_refl)
  qed
qed





text \<open>
  A clock chain \<open>BUFG \<rightarrow> INV \<rightarrow> INV \<rightarrow> FDRE\<close>: wire 0 drives the buffer, wire 1 is the buffer's
  output, wires 2 and 3 are the outputs of the two inverters, and wire 3 clocks the
  flip-flop.
\<close>

definition example_tabs :: tag_tables where
  "example_tabs =
     \<lparr>sink_ports = {(''FDRE'', ''C'', 0)},
      buf_ports = {(''BUFG'', ''O'', 0)},
      inv_ports_out = [(''INV'', ''O'', 0) \<mapsto> (''I'', 0)],
      inv_ports_in = [(''INV'', ''I'', 0) \<mapsto> (''O'', 0)]\<rparr>"

definition bufg_cell :: cell where
  "bufg_cell = \<lparr>cell_name = ''bufg'', cell_type = ''BUFG'',
     connections = [(''I'', [WireBit 0 0]), (''O'', [WireBit 1 0])]\<rparr>"

definition inv1_cell :: cell where
  "inv1_cell = \<lparr>cell_name = ''inv1'', cell_type = ''INV'',
     connections = [(''I'', [WireBit 1 0]), (''O'', [WireBit 2 0])]\<rparr>"

definition inv2_cell :: cell where
  "inv2_cell = \<lparr>cell_name = ''inv2'', cell_type = ''INV'',
     connections = [(''I'', [WireBit 2 0]), (''O'', [WireBit 3 0])]\<rparr>"

definition ff_cell :: cell where
  "ff_cell = \<lparr>cell_name = ''ff'', cell_type = ''FDRE'',
     connections = [(''C'', [WireBit 3 0])]\<rparr>"

definition example_cells :: "cell list" where
  "example_cells = [bufg_cell, inv1_cell, inv2_cell, ff_cell]"



lemma fold_insert_subset:
  "fold (\<lambda>(c, p, i, b) acc. if Q c p i then insert (f b) acc else acc) xs A
     \<subseteq> A \<union> (\<lambda>(c, p, i, b). f b) ` set xs"
proof (induction xs arbitrary: A)
  case Nil
  then show ?case by simp
next
  case (Cons x xs)
  obtain c p i b where x: "x = (c, p, i, b)" by (cases x)
  show ?case using Cons.IH [of "if Q c p i then insert (f b) A else A"]
    by (auto simp: x split: if_splits)
qed

lemma slots_module_bits:
  "(\<lambda>(c, p, i, b). sigmap b) ` set (cell_port_bits cs) \<subseteq> module_bits sigmap cs"
proof
  fix y assume "y \<in> (\<lambda>(c, p, i, b). sigmap b) ` set (cell_port_bits cs)"
  then obtain c p i b where "(c, p, i, b) \<in> set (cell_port_bits cs)" "y = sigmap b"
    by auto
  then show "y \<in> module_bits sigmap cs" using module_bits_slot by simp
qed

lemma collect_tag_sets_bounded:
  "sink_wire_bits (collect_tag_sets sigmap tabs cs) \<subseteq> module_bits sigmap cs \<and>
   buf_wire_bits (collect_tag_sets sigmap tabs cs) \<subseteq> module_bits sigmap cs"
proof -
  have "sink_wire_bits (collect_tag_sets sigmap tabs cs)
          \<subseteq> {} \<union> (\<lambda>(c, p, i, b). sigmap b) ` set (cell_port_bits cs)"
    unfolding collect_tag_sets_def
    using fold_insert_subset [of "\<lambda>c p i. (cell_type c, p, i) \<in> sink_ports tabs" sigmap
        "cell_port_bits cs" "{}"]
    by simp
  moreover have "buf_wire_bits (collect_tag_sets sigmap tabs cs)
          \<subseteq> {} \<union> (\<lambda>(c, p, i, b). sigmap b) ` set (cell_port_bits cs)"
    unfolding collect_tag_sets_def
    using fold_insert_subset [of "\<lambda>c p i. (cell_type c, p, i) \<in> buf_ports tabs" sigmap
        "cell_port_bits cs" "{}"]
    by simp
  ultimately show ?thesis using slots_module_bits [of sigmap cs] by blast
qed

text \<open>
  C5. The propagation loop terminates: given more passes than there are canonical bits of
  the module outside the buffered set, the bounded loop returns what the loop returns
  (a result or an exception of a kernel call). In every pass both tag sets only grow, and
  only by canonical bits of the module's cell connections, of which there are finitely
  many; a pass that sets \<^verbatim>\<open>retry\<close> has enlarged the buffered set; a pass that fires no rule
  leaves the sets as they are and ends the loop. The sets the loop starts from lie within
  the module's canonical bits as well.
\<close>

theorem propagate_terminates:
  "(card (module_bits sigmap cs - buf_wire_bits ts) < n \<longrightarrow>
      propagate_fuel n sigmap tabs cs ts = Some (propagate sigmap tabs cs ts)) \<and>
   (\<forall>ts1 retry. propagate_scan sigmap tabs cs ts = Inr (ts1, retry) \<longrightarrow>
      sink_wire_bits ts \<subseteq> sink_wire_bits ts1 \<and> buf_wire_bits ts \<subseteq> buf_wire_bits ts1 \<and>
      sink_wire_bits ts1 \<subseteq> sink_wire_bits ts \<union> module_bits sigmap cs \<and>
      buf_wire_bits ts1 \<subseteq> buf_wire_bits ts \<union> module_bits sigmap cs \<and>
      (retry \<longrightarrow> buf_wire_bits ts \<subset> buf_wire_bits ts1) \<and>
      (\<not> retry \<longrightarrow> ts1 = ts \<and> propagate sigmap tabs cs ts = Inr ts)) \<and>
   (\<forall>ts'. propagate sigmap tabs cs ts = Inr ts' \<longrightarrow>
      sink_wire_bits ts \<subseteq> sink_wire_bits ts' \<and> buf_wire_bits ts \<subseteq> buf_wire_bits ts' \<and>
      sink_wire_bits ts' \<subseteq> sink_wire_bits ts \<union> module_bits sigmap cs \<and>
      buf_wire_bits ts' \<subseteq> buf_wire_bits ts \<union> module_bits sigmap cs) \<and>
   finite (module_bits sigmap cs) \<and>
   sink_wire_bits (collect_tag_sets sigmap tabs cs) \<subseteq> module_bits sigmap cs \<and>
   buf_wire_bits (collect_tag_sets sigmap tabs cs) \<subseteq> module_bits sigmap cs"
proof (intro conjI allI impI)
  assume "card (module_bits sigmap cs - buf_wire_bits ts) < n"
  then show "propagate_fuel n sigmap tabs cs ts = Some (propagate sigmap tabs cs ts)"
    by (rule propagate_fuel_enough)
next
  fix ts1 retry
  assume scan: "propagate_scan sigmap tabs cs ts = Inr (ts1, retry)"
  note rel = propagate_scan_rel [OF scan]
  show "sink_wire_bits ts \<subseteq> sink_wire_bits ts1" using rel by (simp add: scan_rel_def)
  show "buf_wire_bits ts \<subseteq> buf_wire_bits ts1" using rel by (simp add: scan_rel_def)
  show "sink_wire_bits ts1 \<subseteq> sink_wire_bits ts \<union> module_bits sigmap cs"
    using rel by (simp add: scan_rel_def)
  show "buf_wire_bits ts1 \<subseteq> buf_wire_bits ts \<union> module_bits sigmap cs"
    using rel by (simp add: scan_rel_def)
  { assume retry
    then show "buf_wire_bits ts \<subset> buf_wire_bits ts1" using rel by (simp add: scan_rel_def) }
  { assume nr: "\<not> retry"
    then show eq: "ts1 = ts" using rel by (simp add: scan_rel_def)
    show "propagate sigmap tabs cs ts = Inr ts"
      using scan nr eq by (subst propagate_unfold) simp }
next
  fix ts'
  assume run: "propagate sigmap tabs cs ts = Inr ts'"
  from propagate_result [OF run] have rel: "loop_rel (module_bits sigmap cs) ts ts'" by simp
  show "sink_wire_bits ts \<subseteq> sink_wire_bits ts'" using rel by (simp add: loop_rel_def)
  show "buf_wire_bits ts \<subseteq> buf_wire_bits ts'" using rel by (simp add: loop_rel_def)
  show "sink_wire_bits ts' \<subseteq> sink_wire_bits ts \<union> module_bits sigmap cs"
    using rel by (simp add: loop_rel_def)
  show "buf_wire_bits ts' \<subseteq> buf_wire_bits ts \<union> module_bits sigmap cs"
    using rel by (simp add: loop_rel_def)
next
  show "finite (module_bits sigmap cs)" by (rule finite_module_bits)
  show "sink_wire_bits (collect_tag_sets sigmap tabs cs) \<subseteq> module_bits sigmap cs"
    using collect_tag_sets_bounded by blast
  show "buf_wire_bits (collect_tag_sets sigmap tabs cs) \<subseteq> module_bits sigmap cs"
    using collect_tag_sets_bounded by blast
qed


definition example_tags :: tag_sets where
  "example_tags = collect_tag_sets (\<lambda>b. b) example_tabs example_cells"

definition example_final :: tag_sets where
  "example_final =
     \<lparr>sink_wire_bits = {WireBit 3 0},
      buf_wire_bits = {WireBit 1 0, WireBit 2 0, WireBit 3 0}\<rparr>"


lemma example_tags_eq:
  "example_tags = \<lparr>sink_wire_bits = {WireBit 3 0}, buf_wire_bits = {WireBit 1 0}\<rparr>"
  by code_simp


lemma example_propagate:
  "propagate (\<lambda>b. b) example_tabs example_cells example_tags = Inr example_final"
  by code_simp


lemma example_scan:
  "propagate_scan (\<lambda>b. b) example_tabs example_cells example_tags = Inr (example_final, True)"
  by code_simp

lemma example_card:
  "card (module_bits (\<lambda>b. b) example_cells - buf_wire_bits example_tags) < 4"
  by code_simp


theorem propagate_terminates_witness:
  "card (module_bits (\<lambda>b. b) example_cells - buf_wire_bits example_tags) < 4 \<and>
   propagate_fuel 4 (\<lambda>b. b) example_tabs example_cells example_tags = Some (Inr example_final) \<and>
   propagate_scan (\<lambda>b. b) example_tabs example_cells example_tags = Inr (example_final, True) \<and>
   buf_wire_bits example_tags \<subset> buf_wire_bits example_final \<and>
   buf_wire_bits example_final \<subseteq> buf_wire_bits example_tags \<union> module_bits (\<lambda>b. b) example_cells \<and>
   sink_wire_bits example_tags \<subseteq> module_bits (\<lambda>b. b) example_cells"
proof -
  note inst = propagate_terminates [of "\<lambda>b. b" example_cells example_tags 4 example_tabs]
  from inst example_card
  have a: "propagate_fuel 4 (\<lambda>b. b) example_tabs example_cells example_tags =
           Some (Inr example_final)"
    by (simp add: example_propagate)
  from inst example_scan
  have b: "buf_wire_bits example_tags \<subset> buf_wire_bits example_final"
    and c: "buf_wire_bits example_final \<subseteq>
            buf_wire_bits example_tags \<union> module_bits (\<lambda>b. b) example_cells"
    by blast+
  from inst have d: "sink_wire_bits example_tags \<subseteq> module_bits (\<lambda>b. b) example_cells"
    unfolding example_tags_def by blast
  show ?thesis by (intro conjI example_card a example_scan b c d)
qed



section \<open>Processing one module\<close>

text \<open>
  What the pass takes from its surroundings: the module's signal map (built once, before
  any change to the module), the direction of a port of a cell type
  (\<^verbatim>\<open>cell->output(port)\<close>), the active selection on wire names
  (\<^verbatim>\<open>module->selected(wire)\<close>), the kernel's \<^verbatim>\<open>RTLIL::escape_id\<close>, the name
  \<^verbatim>\<open>NEW_ID\<close> makes from the running counter, and the hash of a bit.
\<close>

record env =
  env_sigmap :: "sigbit \<Rightarrow> sigbit"
  env_output :: "idstring \<Rightarrow> idstring \<Rightarrow> bool"
  env_selected :: "idstring \<Rightarrow> bool"
  env_escape_id :: "string \<Rightarrow> idstring"
  env_new_id :: "nat \<Rightarrow> idstring"
  env_hash :: "sigbit \<Rightarrow> nat"

text \<open>The options of the command line, and the \<^verbatim>\<open>buffer_inputs\<close> flag derived from them.\<close>

record config =
  buf_celltype :: string
  buf_portname :: string
  buf_portname2 :: string
  inpad_celltype :: string
  inpad_portname :: string
  inpad_portname2 :: string
  select :: bool
  buffer_inputs :: bool

definition ID :: "string \<Rightarrow> idstring" where
  "ID s = CHR 0x5C # s"

definition get_bool_attribute :: "(idstring \<times> const) list \<Rightarrow> idstring \<Rightarrow> bool" where
  "get_bool_attribute attrs name =
     (case map_of attrs name of None \<Rightarrow> False | Some v \<Rightarrow> as_bool v)"

text \<open>
  Lines 125 to 130: \<^verbatim>\<open>buffer_inputs\<close> stays true unless the pad cell type is a module of
  the design that has a wire named like the buffer's first port name carrying the
  \<^verbatim>\<open>clkbuf_driver\<close> attribute.
\<close>

definition compute_buffer_inputs :: "env \<Rightarrow> design \<Rightarrow> string \<Rightarrow> string \<Rightarrow> bool" where
  "compute_buffer_inputs e d inpad_celltype' buf_portname' =
     (case d (env_escape_id e inpad_celltype') of
        None \<Rightarrow> True
      | Some inpad_mod \<Rightarrow>
          (case find (\<lambda>w. wire_name w = env_escape_id e buf_portname') (mod_wires inpad_mod) of
             None \<Rightarrow> True
           | Some buf_wire \<Rightarrow>
               \<not> get_bool_attribute (attributes buf_wire) (ID ''clkbuf_driver'')))"

text \<open>
  The state the processing of one module threads through its loops: the module, the two
  tag tables it writes, the substitution table \<^verbatim>\<open>buffered_bits\<close> (canonical bit to inserted
  cell and internal wire), the \<^verbatim>\<open>input_queue\<close> of port wires to swap, and the kernel's
  counter behind \<^verbatim>\<open>NEW_ID\<close>.
\<close>

record pass_state =
  st_module :: rtlil_module
  st_tabs :: tag_tables
  buffered_bits :: "sigbit \<Rightarrow> (nat \<times> nat) option"
  input_queue :: "(nat \<times> nat) list"
  autoidx :: nat

subsection \<open>Kernel operations\<close>

text \<open>
  Modelled from the spec: \<^verbatim>\<open>Module::addCell\<close> is not among the sources; "create a new cell
  of a named type with port connections". The cell is added after the existing ones, with
  no connection yet, and its position is returned as its identity.
\<close>

definition addCell :: "idstring \<Rightarrow> idstring \<Rightarrow> rtlil_module \<Rightarrow> rtlil_module \<times> nat" where
  "addCell name type m =
     (m\<lparr>mod_cells := mod_cells m @ [\<lparr>cell_name = name, cell_type = type, connections = []\<rparr>]\<rparr>,
      length (mod_cells m))"

text \<open>
  Modelled from the spec: \<^verbatim>\<open>Module::addWire(name)\<close> is not among the sources; a new
  internal wire, one bit wide, no port flag, no attribute.
\<close>

definition addWire :: "idstring \<Rightarrow> rtlil_module \<Rightarrow> rtlil_module \<times> nat" where
  "addWire name m =
     (m\<lparr>mod_wires := mod_wires m @
          [\<lparr>wire_name = name, width = 1, port_id = 0, port_input = False,
            port_output = False, attributes = []\<rparr>]\<rparr>,
      length (mod_wires m))"

text \<open>
  Modelled from the spec: \<^verbatim>\<open>Module::addWire(name, other)\<close> is not among the sources;
  "create a new wire with width/attributes inherited from a template". The copy takes
  the template's width, port position, port flags and attributes, under the new name.
\<close>

definition addWire_like :: "idstring \<Rightarrow> wire \<Rightarrow> rtlil_module \<Rightarrow> rtlil_module \<times> nat" where
  "addWire_like name other m =
     (m\<lparr>mod_wires := mod_wires m @ [other\<lparr>wire_name := name\<rparr>]\<rparr>, length (mod_wires m))"

text \<open>
  Modelled from the spec: \<^verbatim>\<open>Cell::setPort\<close> is not among the sources. The signal of an
  existing port is replaced where it stands; a port the cell does not have is added.
\<close>

definition setPort_cell :: "idstring \<Rightarrow> sigspec \<Rightarrow> cell \<Rightarrow> cell" where
  "setPort_cell portname sig c =
     c\<lparr>connections :=
        (if portname \<in> fst ` set (connections c)
         then map (\<lambda>(q, s). if q = portname then (q, sig) else (q, s)) (connections c)
         else connections c @ [(portname, sig)])\<rparr>"

definition setPort :: "nat \<Rightarrow> idstring \<Rightarrow> sigspec \<Rightarrow> rtlil_module \<Rightarrow> rtlil_module" where
  "setPort c portname sig m =
     m\<lparr>mod_cells := (mod_cells m)[c := setPort_cell portname sig (mod_cells m ! c)]\<rparr>"

text \<open>
  Modelled from the spec: \<^verbatim>\<open>Module::connect\<close> is not among the sources; "connect two
  signals".
\<close>

definition connect :: "sigspec \<Rightarrow> sigspec \<Rightarrow> rtlil_module \<Rightarrow> rtlil_module" where
  "connect lhs rhs m = m\<lparr>mod_connections := mod_connections m @ [(lhs, rhs)]\<rparr>"

text \<open>
  Modelled from the spec: \<^verbatim>\<open>Module::swap_names\<close> is not among the sources; "rename/swap
  the identity of two wires". The two wires exchange their names and nothing else.
\<close>

definition swap_names :: "nat \<Rightarrow> nat \<Rightarrow> rtlil_module \<Rightarrow> rtlil_module" where
  "swap_names w1 w2 m =
     (let ws = mod_wires m;
          n1 = wire_name (ws ! w1);
          n2 = wire_name (ws ! w2)
      in m\<lparr>mod_wires := (ws[w1 := (ws ! w1)\<lparr>wire_name := n2\<rparr>])
                              [w2 := (ws ! w2)\<lparr>wire_name := n1\<rparr>]\<rparr>)"

text \<open>
  Modelled from the spec: \<^verbatim>\<open>Module::fixup_ports\<close> is not among the sources; "recompute a
  module's port list from wire flags". The wires with a port flag, in the order of their
  port positions, become the port list and are numbered from 1; the other wires get
  position 0.
\<close>

definition fixup_ports :: "rtlil_module \<Rightarrow> rtlil_module" where
  "fixup_ports m =
     (let all_ports = sort_key port_id
            (filter (\<lambda>w. port_input w \<or> port_output w) (mod_wires m));
          names = map wire_name all_ports
      in m\<lparr>mod_wires :=
             map (\<lambda>w. if port_input w \<or> port_output w
                       then w\<lparr>port_id := Suc (length (takeWhile (\<lambda>n. n \<noteq> wire_name w) names))\<rparr>
                       else w\<lparr>port_id := 0\<rparr>) (mod_wires m),
           ports := names\<rparr>)"

subsection \<open>Inserting buffers\<close>

definition is_top :: "rtlil_module \<Rightarrow> bool" where
  "is_top m = get_bool_attribute (mod_attributes m) (ID ''top'')"

text \<open>\<^verbatim>\<open>module->addCell(NEW_ID, type)\<close> and \<^verbatim>\<open>module->addWire(NEW_ID)\<close> on the state.\<close>

definition add_cell :: "env \<Rightarrow> idstring \<Rightarrow> pass_state \<Rightarrow> pass_state \<times> nat" where
  "add_cell e type st =
     (let (m, c) = addCell (env_new_id e (autoidx st)) type (st_module st)
      in (st\<lparr>st_module := m, autoidx := Suc (autoidx st)\<rparr>, c))"

definition add_wire :: "env \<Rightarrow> pass_state \<Rightarrow> pass_state \<times> nat" where
  "add_wire e st =
     (let (m, w) = addWire (env_new_id e (autoidx st)) (st_module st)
      in (st\<lparr>st_module := m, autoidx := Suc (autoidx st)\<rparr>, w))"

definition add_wire_like :: "env \<Rightarrow> wire \<Rightarrow> pass_state \<Rightarrow> pass_state \<times> nat" where
  "add_wire_like e other st =
     (let (m, w) = addWire_like (env_new_id e (autoidx st)) other (st_module st)
      in (st\<lparr>st_module := m, autoidx := Suc (autoidx st)\<rparr>, w))"

definition set_port :: "nat \<Rightarrow> idstring \<Rightarrow> sigspec \<Rightarrow> pass_state \<Rightarrow> pass_state" where
  "set_port c portname sig st = st\<lparr>st_module := setPort c portname sig (st_module st)\<rparr>"

definition mark_buf_port :: "wire \<Rightarrow> nat \<Rightarrow> pass_state \<Rightarrow> pass_state" where
  "mark_buf_port wire i st =
     st\<lparr>st_tabs := (st_tabs st)\<lparr>buf_ports :=
        insert (mod_name (st_module st), wire_name wire, i) (buf_ports (st_tabs st))\<rparr>\<rparr>"

definition mark_sink_port :: "wire \<Rightarrow> nat \<Rightarrow> pass_state \<Rightarrow> pass_state" where
  "mark_sink_port wire i st =
     st\<lparr>st_tabs := (st_tabs st)\<lparr>sink_ports :=
        insert (mod_name (st_module st), wire_name wire, i) (sink_ports (st_tabs st))\<rparr>\<rparr>"

text \<open>
  Lines 302 to 325: the cells and wires created for one bit that is to be buffered. The
  pointers \<^verbatim>\<open>cell\<close> and \<^verbatim>\<open>iwire\<close> are null together or set together, so they are kept
  as one optional pair. A \<^verbatim>\<open>Wire*\<close> given where a signal is expected stands for all bits
  of the wire; the wires made here are one bit wide.
\<close>

definition is_input :: "config \<Rightarrow> wire \<Rightarrow> rtlil_module \<Rightarrow> bool" where
  "is_input cfg wire m = (port_input wire \<and> inpad_celltype cfg \<noteq> [] \<and> is_top m)"

definition insert_buffer :: "env \<Rightarrow> config \<Rightarrow> wire \<Rightarrow> sigbit \<Rightarrow> pass_state \<Rightarrow> pass_state" where
  "insert_buffer e cfg wire mapped_wire_bit st =
     (let is_input = is_input cfg wire (st_module st);
          (st1, ins1) =
            (if buf_celltype cfg \<noteq> [] \<and> (\<not> is_input \<or> buffer_inputs cfg) then
               (let (sa, cell) = add_cell e (env_escape_id e (buf_celltype cfg)) st;
                    (sb, iwire) = add_wire e sa;
                    sc = set_port cell (env_escape_id e (buf_portname cfg)) [mapped_wire_bit] sb;
                    sd = set_port cell (env_escape_id e (buf_portname2 cfg)) [WireBit iwire 0] sc
                in (sd, Some (cell, iwire)))
             else (st, None));
          (st2, ins2) =
            (if is_input then
               (let (sa, cell2) = add_cell e (env_escape_id e (inpad_celltype cfg)) st1;
                    (sb, cell) =
                      (case ins1 of
                         Some (cell, iwire) \<Rightarrow>
                           (set_port cell2 (env_escape_id e (inpad_portname cfg))
                              [WireBit iwire 0] sa, cell)
                       | None \<Rightarrow>
                           (set_port cell2 (env_escape_id e (inpad_portname cfg))
                              [mapped_wire_bit] sa, cell2));
                    (sc, iwire) = add_wire e sb;
                    sd = set_port cell2 (env_escape_id e (inpad_portname2 cfg)) [WireBit iwire 0] sc
                in (sd, Some (cell, iwire)))
             else (st1, ins1))
      in (case ins2 of
            None \<Rightarrow> st2
          | Some ci \<Rightarrow> st2\<lparr>buffered_bits := (buffered_bits st2)(mapped_wire_bit \<mapsto> ci)\<rparr>))"

text \<open>All driven bits (lines 212 to 217): the bits found on output ports, as they stand.\<close>

definition driven_bits :: "env \<Rightarrow> cell list \<Rightarrow> sigbit set" where
  "driven_bits e cs =
     fold (\<lambda>(c, p, i, b) acc. if env_output e (cell_type c) p then insert b acc else acc)
       (cell_port_bits cs) {}"

text \<open>
  Lines 288 to 336: the decision for bit \<open>i\<close> of a wire, with the set \<^verbatim>\<open>input_bits\<close> of the
  wire's loop.
\<close>

definition process_bit ::
  "env \<Rightarrow> config \<Rightarrow> tag_sets \<Rightarrow> sigbit set \<Rightarrow> nat \<Rightarrow> wire \<Rightarrow> nat \<Rightarrow>
   pass_state \<times> nat set \<Rightarrow> pass_state \<times> nat set" where
  "process_bit e cfg ts driven_wire_bits wref wire i acc =
     (case acc of (st, input_bits) \<Rightarrow>
        let wire_bit = WireBit wref i;
            mapped_wire_bit = env_sigmap e wire_bit
        in if mapped_wire_bit \<in> buf_wire_bits ts then
             (if port_output wire then mark_buf_port wire i st else st, input_bits)
           else if mapped_wire_bit \<notin> sink_wire_bits ts then (st, input_bits)
           else if wire_bit \<in> driven_wire_bits \<or> (port_input wire \<and> is_top (st_module st)) then
             (insert_buffer e cfg wire mapped_wire_bit st,
              if port_input wire then insert i input_bits else input_bits)
           else if port_input wire then (mark_sink_port wire i st, input_bits)
           else (st, input_bits))"

text \<open>
  Lines 337 to 354: an input port some bit of which was handled gets a new wire made
  after it, connected bit by bit to the buffer's internal wire where there is one and
  to the old wire elsewhere, and is queued for the swap of names.
\<close>

definition rewire_input_port :: "env \<Rightarrow> nat \<Rightarrow> wire \<Rightarrow> pass_state \<Rightarrow> pass_state" where
  "rewire_input_port e wref wire st =
     (let (st1, new_wire) = add_wire_like e wire st;
          m = fold (\<lambda>i m.
                 (case buffered_bits st (env_sigmap e (WireBit wref i)) of
                    Some (c, iwire) \<Rightarrow> connect [WireBit iwire 0] [WireBit new_wire i] m
                  | None \<Rightarrow> connect [WireBit wref i] [WireBit new_wire i] m))
               [0..<width wire] (st_module st1)
      in st1\<lparr>st_module := m, input_queue := input_queue st1 @ [(wref, new_wire)]\<rparr>)"

definition wire_processed :: "env \<Rightarrow> config \<Rightarrow> wire \<Rightarrow> bool" where
  "wire_processed e cfg wire =
     (env_selected e (wire_name wire) \<and>
      \<not> (\<not> select cfg \<and> get_bool_attribute (attributes wire) (ID ''clkbuf_inhibit'')))"

text \<open>A wire that is bypassed: as an output port its bits are entered in \<^verbatim>\<open>buf_ports\<close>.\<close>

definition bypass_wire :: "wire \<Rightarrow> pass_state \<Rightarrow> pass_state" where
  "bypass_wire wire st =
     (if port_output wire then fold (mark_buf_port wire) [0..<width wire] st else st)"

text \<open>
  Lines 269 to 355 for one wire of the list copied before the loop. The wires of that
  list are not written to before the final swap, so the copy stands for the wire itself.
\<close>

definition process_wire ::
  "env \<Rightarrow> config \<Rightarrow> tag_sets \<Rightarrow> sigbit set \<Rightarrow> nat \<times> wire \<Rightarrow> pass_state \<Rightarrow> pass_state" where
  "process_wire e cfg ts driven_wire_bits x st =
     (case x of (wref, wire) \<Rightarrow>
        if port_input wire \<and> port_output wire then st
        else if \<not> wire_processed e cfg wire then bypass_wire wire st
        else
          (case fold (process_bit e cfg ts driven_wire_bits wref wire) [0..<width wire] (st, {}) of
             (st1, input_bits) \<Rightarrow>
               if input_bits \<noteq> {} then rewire_input_port e wref wire st1 else st1))"

definition insert_buffers ::
  "env \<Rightarrow> config \<Rightarrow> tag_sets \<Rightarrow> sigbit set \<Rightarrow> (nat \<times> wire) list \<Rightarrow> pass_state \<Rightarrow> pass_state" where
  "insert_buffers e cfg ts driven_wire_bits wires st =
     fold (process_wire e cfg ts driven_wire_bits) wires st"

subsection \<open>The rest of the module's processing\<close>

text \<open>
  Lines 226 to 252: the canonical bits of all wires that are processed, in a list. The
  loop also enters the bits of bypassed output ports in \<^verbatim>\<open>buf_ports\<close>, as the main loop
  does again later.
\<close>

definition collect_buf_bits_wire ::
  "env \<Rightarrow> config \<Rightarrow> nat \<times> wire \<Rightarrow> pass_state \<times> sigbit list \<Rightarrow> pass_state \<times> sigbit list" where
  "collect_buf_bits_wire e cfg x acc =
     (case x of (wref, wire) \<Rightarrow>
      case acc of (st, buf_bits) \<Rightarrow>
        if port_input wire \<and> port_output wire then (st, buf_bits)
        else if \<not> wire_processed e cfg wire then (bypass_wire wire st, buf_bits)
        else (st, buf_bits @ map (\<lambda>i. env_sigmap e (WireBit wref i)) [0..<width wire]))"

definition collect_buf_bits ::
  "env \<Rightarrow> config \<Rightarrow> (nat \<times> wire) list \<Rightarrow> pass_state \<Rightarrow> pass_state \<times> sigbit list" where
  "collect_buf_bits e cfg wires st = fold (collect_buf_bits_wire e cfg) wires (st, [])"

text \<open>\<^verbatim>\<open>SigSpec::as_bit\<close> asserts that the signal is one bit wide.\<close>

definition as_bit :: "sigspec \<Rightarrow> error + sigbit" where
  "as_bit sig = (case sig of [b] \<Rightarrow> Inr b | _ \<Rightarrow> Inl AssertionFailed)"

text \<open>
  Lines 255 to 267: the cells of type \<^verbatim>\<open>BUFR\<close> or \<^verbatim>\<open>BUFIO\<close> whose input bit, as it
  stands, is among the collected canonical bits, entered under the hash of that bit. The
  table is kept as the list of its entries in the order they were pushed.
\<close>

definition is_bufr :: "cell \<Rightarrow> bool" where
  "is_bufr c = (cell_type c = ID ''BUFR'' \<or> cell_type c = ID ''BUFIO'')"

definition index_bufr_cell ::
  "env \<Rightarrow> sigbit list \<Rightarrow> nat \<times> cell \<Rightarrow> (nat \<times> nat) list \<Rightarrow> error + (nat \<times> nat) list" where
  "index_bufr_cell e buf_bits x acc =
     (case x of (cref, cell) \<Rightarrow>
        if \<not> is_bufr cell then Inr acc
        else
          (case getPort cell (ID ''I'') of
             Inl er \<Rightarrow> Inl er
           | Inr i_sig \<Rightarrow>
               (case as_bit i_sig of
                  Inl er \<Rightarrow> Inl er
                | Inr b \<Rightarrow>
                    if b \<in> set buf_bits then Inr (acc @ [(env_hash e b, cref)]) else Inr acc)))"

definition index_bufr_cells ::
  "env \<Rightarrow> sigbit list \<Rightarrow> (nat \<times> cell) list \<Rightarrow> error + (nat \<times> nat) list" where
  "index_bufr_cells e buf_bits cells = fold_err (index_bufr_cell e buf_bits) cells []"

definition bufr_cells_find :: "(nat \<times> nat) list \<Rightarrow> nat \<Rightarrow> nat list" where
  "bufr_cells_find bufr_cells_map h = map snd (filter (\<lambda>(k, c). k = h) bufr_cells_map)"

text \<open>Lines 358 to 368: newly buffered output ports are entered in \<^verbatim>\<open>buf_ports\<close>.\<close>

definition mark_buffered_bit :: "env \<Rightarrow> nat \<Rightarrow> wire \<Rightarrow> nat \<Rightarrow> pass_state \<Rightarrow> pass_state" where
  "mark_buffered_bit e wref wire i st =
     (if buffered_bits st (env_sigmap e (WireBit wref i)) \<noteq> None
      then mark_buf_port wire i st else st)"

definition mark_buffered_wire :: "env \<Rightarrow> nat \<times> wire \<Rightarrow> pass_state \<Rightarrow> pass_state" where
  "mark_buffered_wire e x st =
     (case x of (wref, wire) \<Rightarrow>
        if \<not> env_selected e (wire_name wire) then st
        else if port_input wire \<or> \<not> port_output wire then st
        else fold (mark_buffered_bit e wref wire) [0..<width wire] st)"

definition mark_buffered_outputs :: "env \<Rightarrow> pass_state \<Rightarrow> pass_state" where
  "mark_buffered_outputs e st =
     fold (mark_buffered_wire e) (enumerate 0 (mod_wires (st_module st))) st"

text \<open>
  Lines 387 to 394: the input of a secondary buffer cell is set, in all its bits, to the
  internal wire.
\<close>

definition repoint_bufr :: "nat \<Rightarrow> nat \<Rightarrow> rtlil_module \<Rightarrow> error + rtlil_module" where
  "repoint_bufr iwire cl m =
     (case getPort (mod_cells m ! cl) (ID ''I'') of
        Inl er \<Rightarrow> Inl er
      | Inr bufr_i \<Rightarrow> Inr (setPort cl (ID ''I'') (map (\<lambda>b. WireBit iwire 0) bufr_i) m))"

text \<open>
  Lines 377 to 398 for the bit at position \<open>k\<close> of the copied signal \<^verbatim>\<open>sig\<close> of a port of
  cell \<open>cref\<close>.
\<close>

definition reconnect_bit ::
  "env \<Rightarrow> (sigbit \<Rightarrow> (nat \<times> nat) option) \<Rightarrow> (nat \<times> nat) list \<Rightarrow> nat \<Rightarrow> nat \<Rightarrow>
   rtlil_module \<times> sigspec \<times> bool \<Rightarrow> error + (rtlil_module \<times> sigspec \<times> bool)" where
  "reconnect_bit e bb bufr_cells_map cref k acc =
     (case acc of (m, sig, newsig) \<Rightarrow>
        (case bb (env_sigmap e (sig ! k)) of
           None \<Rightarrow> Inr acc
         | Some (bcell, iwire) \<Rightarrow>
             if cref = bcell then Inr acc
             else
               (case fold_err (repoint_bufr iwire)
                       (bufr_cells_find bufr_cells_map (env_hash e (env_sigmap e (sig ! k)))) m of
                  Inl er \<Rightarrow> Inl er
                | Inr m' \<Rightarrow> Inr (m', sig[k := WireBit iwire 0], True))))"

text \<open>
  Lines 372 to 400 for the port at position \<open>j\<close> of the connections of cell \<open>cref\<close>; the
  port's signal is read when the loop reaches it.
\<close>

definition reconnect_port ::
  "env \<Rightarrow> (sigbit \<Rightarrow> (nat \<times> nat) option) \<Rightarrow> (nat \<times> nat) list \<Rightarrow> nat \<Rightarrow> nat \<Rightarrow>
   rtlil_module \<Rightarrow> error + rtlil_module" where
  "reconnect_port e bb bufr_cells_map cref j m =
     (case connections (mod_cells m ! cref) ! j of
        (p, sig0) \<Rightarrow>
          if \<not> env_output e (cell_type (mod_cells m ! cref)) p then Inr m
          else
            (case fold_err (reconnect_bit e bb bufr_cells_map cref) [0..<length sig0]
                    (m, sig0, False) of
               Inl er \<Rightarrow> Inl er
             | Inr (m', sig, newsig) \<Rightarrow> Inr (if newsig then setPort cref p sig m' else m')))"

definition reconnect_cell ::
  "env \<Rightarrow> (sigbit \<Rightarrow> (nat \<times> nat) option) \<Rightarrow> (nat \<times> nat) list \<Rightarrow> nat \<Rightarrow>
   rtlil_module \<Rightarrow> error + rtlil_module" where
  "reconnect_cell e bb bufr_cells_map cref m =
     fold_err (reconnect_port e bb bufr_cells_map cref)
       [0..<length (connections (mod_cells m ! cref))] m"

definition reconnect_drivers ::
  "env \<Rightarrow> (sigbit \<Rightarrow> (nat \<times> nat) option) \<Rightarrow> (nat \<times> nat) list \<Rightarrow>
   rtlil_module \<Rightarrow> error + rtlil_module" where
  "reconnect_drivers e bb bufr_cells_map m =
     fold_err (reconnect_cell e bb bufr_cells_map) [0..<length (mod_cells m)] m"

text \<open>
  Lines 404 to 412: each queued port wire exchanges names with the wire made after it and
  is then stripped of its attributes and port flags.
\<close>

definition demote_wire :: "nat \<Rightarrow> rtlil_module \<Rightarrow> rtlil_module" where
  "demote_wire w m =
     m\<lparr>mod_wires := (mod_wires m)
          [w := (mod_wires m ! w)\<lparr>attributes := [], port_id := 0, port_input := False,
                                  port_output := False\<rparr>]\<rparr>"

definition apply_input_queue :: "(nat \<times> nat) list \<Rightarrow> rtlil_module \<Rightarrow> rtlil_module" where
  "apply_input_queue q m =
     fold (\<lambda>(wire, new_wire) m. demote_wire wire (swap_names new_wire wire m)) q m"

text \<open>
  The processing of one module that is not a blackbox (lines 160 to 414), from a state
  that holds the module and the tag tables as the modules processed before have left
  them.
\<close>

definition process_module :: "env \<Rightarrow> config \<Rightarrow> pass_state \<Rightarrow> error + pass_state" where
  "process_module e cfg st0 =
     (let cs = mod_cells (st_module st0);
          wires = enumerate 0 (mod_wires (st_module st0))
      in case propagate (env_sigmap e) (st_tabs st0) cs
                (collect_tag_sets (env_sigmap e) (st_tabs st0) cs) of
           Inl er \<Rightarrow> Inl er
         | Inr ts \<Rightarrow>
             (case collect_buf_bits e cfg wires
                     (st0\<lparr>buffered_bits := (\<lambda>b. None), input_queue := []\<rparr>) of
                (st1, buf_bits) \<Rightarrow>
                  (case index_bufr_cells e buf_bits (enumerate 0 cs) of
                     Inl er \<Rightarrow> Inl er
                   | Inr bufr_cells_map \<Rightarrow>
                       (let st2 = insert_buffers e cfg ts (driven_bits e cs) wires st1;
                            st3 = mark_buffered_outputs e st2
                        in case reconnect_drivers e (buffered_bits st3) bufr_cells_map
                                  (st_module st3) of
                             Inl er \<Rightarrow> Inl er
                           | Inr m \<Rightarrow>
                               Inr (st3\<lparr>st_module :=
                                      fixup_ports (apply_input_queue (input_queue st3) m)\<rparr>)))))"

subsection \<open>The decision for one bit\<close>





definition new_wire_of :: "idstring \<Rightarrow> wire" where
  "new_wire_of name = \<lparr>wire_name = name, width = 1, port_id = 0, port_input = False,
            port_output = False, attributes = []\<rparr>"

lemma getPort_setPort_cell_same:
  "getPort (setPort_cell p sig c) p = Inr sig"
proof (cases "p \<in> fst ` set (connections c)")
  case True
  have "map_of (map (\<lambda>(q, s). if q = p then (q, sig) else (q, s)) xs) p = Some sig"
    if "p \<in> fst ` set xs" for xs :: "(idstring \<times> sigspec) list"
    using that by (induction xs) auto
  then show ?thesis using True by (simp add: getPort_def setPort_cell_def)
next
  case False
  then have "map_of (connections c) p = None" by (simp add: map_of_eq_None_iff)
  then show ?thesis using False by (simp add: getPort_def setPort_cell_def map_add_def)
qed

lemma getPort_setPort_cell_other:
  "q \<noteq> p \<Longrightarrow> getPort (setPort_cell p sig c) q = getPort c q"
proof (cases "p \<in> fst ` set (connections c)")
  case True
  assume qp: "q \<noteq> p"
  have "map_of (map (\<lambda>(q, s). if q = p then (q, sig) else (q, s)) xs) q = map_of xs q"
    for xs :: "(idstring \<times> sigspec) list"
    using qp by (induction xs) auto
  then show ?thesis using True by (simp add: getPort_def setPort_cell_def)
next
  case False
  assume qp: "q \<noteq> p"
  then show ?thesis using False
    by (auto simp: getPort_def setPort_cell_def map_add_def split: option.splits)
qed

lemma cell_type_setPort_cell [simp]: "cell_type (setPort_cell p sig c) = cell_type c"
  by (simp add: setPort_cell_def)

lemma insert_buffer_buffer_only:
  assumes "buf_celltype cfg \<noteq> []"
    and "\<not> is_input cfg wire (st_module st)"
  shows "insert_buffer e cfg wire b st =
     st\<lparr>st_module := (st_module st)
          \<lparr>mod_cells := mod_cells (st_module st) @
             [setPort_cell (env_escape_id e (buf_portname2 cfg))
                [WireBit (length (mod_wires (st_module st))) 0]
                (setPort_cell (env_escape_id e (buf_portname cfg)) [b]
                   \<lparr>cell_name = env_new_id e (autoidx st),
                    cell_type = env_escape_id e (buf_celltype cfg), connections = []\<rparr>)],
           mod_wires := mod_wires (st_module st) @
             [new_wire_of (env_new_id e (Suc (autoidx st)))]\<rparr>,
        autoidx := Suc (Suc (autoidx st)),
        buffered_bits := (buffered_bits st)
          (b \<mapsto> (length (mod_cells (st_module st)), length (mod_wires (st_module st))))\<rparr>"
  using assms
  by (simp add: insert_buffer_def add_cell_def add_wire_def set_port_def addCell_def addWire_def
      setPort_def Let_def new_wire_of_def)


definition buffer_cell_of :: "env \<Rightarrow> config \<Rightarrow> sigbit \<Rightarrow> pass_state \<Rightarrow> cell" where
  "buffer_cell_of e cfg b st =
     setPort_cell (env_escape_id e (buf_portname2 cfg))
       [WireBit (length (mod_wires (st_module st))) 0]
       (setPort_cell (env_escape_id e (buf_portname cfg)) [b]
          \<lparr>cell_name = env_new_id e (autoidx st),
           cell_type = env_escape_id e (buf_celltype cfg), connections = []\<rparr>)"

lemma insert_buffer_with_buffer:
  assumes "buf_celltype cfg \<noteq> []"
    and "\<not> is_input cfg wire (st_module st) \<or> buffer_inputs cfg"
  shows "\<exists>cs ws. mod_cells (st_module (insert_buffer e cfg wire b st)) =
            mod_cells (st_module st) @ buffer_cell_of e cfg b st # cs \<and>
          mod_wires (st_module (insert_buffer e cfg wire b st)) =
            mod_wires (st_module st) @ new_wire_of (env_new_id e (Suc (autoidx st))) # ws"
proof (cases "is_input cfg wire (st_module st)")
  case False
  then show ?thesis
    using assms(1) by (simp add: insert_buffer_buffer_only buffer_cell_of_def)
next
  case True
  then have bi: "buffer_inputs cfg" using assms(2) by simp
  have top': "is_input cfg wire (st_module st\<lparr>mod_cells := X, mod_wires := Y\<rparr>)" for X Y
    using True by (simp add: is_input_def is_top_def)
  show ?thesis
    using True bi assms(1)
    by (simp add: insert_buffer_def add_cell_def add_wire_def set_port_def addCell_def
        addWire_def setPort_def Let_def new_wire_of_def buffer_cell_of_def
        list_update_append nth_append)
qed


lemma getPort_buffer_cell_of:
  "getPort (buffer_cell_of e cfg b st) (env_escape_id e (buf_portname2 cfg)) =
     Inr [WireBit (length (mod_wires (st_module st))) 0]"
  "env_escape_id e (buf_portname cfg) \<noteq> env_escape_id e (buf_portname2 cfg) \<Longrightarrow>
   getPort (buffer_cell_of e cfg b st) (env_escape_id e (buf_portname cfg)) = Inr [b]"
  "cell_type (buffer_cell_of e cfg b st) = env_escape_id e (buf_celltype cfg)"
  "fst ` set (connections (buffer_cell_of e cfg b st)) =
     {env_escape_id e (buf_portname cfg), env_escape_id e (buf_portname2 cfg)}"
proof -
  show "getPort (buffer_cell_of e cfg b st) (env_escape_id e (buf_portname2 cfg)) =
     Inr [WireBit (length (mod_wires (st_module st))) 0]"
    unfolding buffer_cell_of_def by (rule getPort_setPort_cell_same)
  show "getPort (buffer_cell_of e cfg b st) (env_escape_id e (buf_portname cfg)) = Inr [b]"
    if "env_escape_id e (buf_portname cfg) \<noteq> env_escape_id e (buf_portname2 cfg)"
    unfolding buffer_cell_of_def
    using that by (simp add: getPort_setPort_cell_other getPort_setPort_cell_same)
  show "cell_type (buffer_cell_of e cfg b st) = env_escape_id e (buf_celltype cfg)"
    by (simp add: buffer_cell_of_def)
  show "fst ` set (connections (buffer_cell_of e cfg b st)) =
     {env_escape_id e (buf_portname cfg), env_escape_id e (buf_portname2 cfg)}"
    by (auto simp: buffer_cell_of_def setPort_cell_def)
qed

lemma process_bit_inserts:
  assumes "env_sigmap e (WireBit wref i) \<notin> buf_wire_bits ts"
    and "env_sigmap e (WireBit wref i) \<in> sink_wire_bits ts"
    and "WireBit wref i \<in> driven_wire_bits \<or> (port_input wire \<and> is_top (st_module st))"
  shows "fst (process_bit e cfg ts driven_wire_bits wref wire i (st, input_bits)) =
           insert_buffer e cfg wire (env_sigmap e (WireBit wref i)) st"
  using assms by (auto simp: process_bit_def Let_def)

text \<open>
  C3 (as the code has it). Whenever the decision for a bit reaches the insertion and a
  buffer cell is made (a buffer type is configured and the bit is not a pad input, or
  \<^verbatim>\<open>buffer_inputs\<close> holds), the new cell has the buffer type and the two configured
  ports: the second port name of the pair (the input port) is connected to a new one-bit
  internal wire, and the first port name (the output port) is connected to the canonical
  bit, provided the two port names differ.
\<close>

theorem inserted_buffer_ports:
  assumes "env_sigmap e (WireBit wref i) \<notin> buf_wire_bits ts"
    and "env_sigmap e (WireBit wref i) \<in> sink_wire_bits ts"
    and "WireBit wref i \<in> driven_wire_bits \<or> (port_input wire \<and> is_top (st_module st))"
    and "buf_celltype cfg \<noteq> []"
    and "\<not> is_input cfg wire (st_module st) \<or> buffer_inputs cfg"
  shows "\<exists>cell cs ws.
      mod_cells (st_module (fst (process_bit e cfg ts driven_wire_bits wref wire i (st, input_bits)))) =
        mod_cells (st_module st) @ cell # cs \<and>
      mod_wires (st_module (fst (process_bit e cfg ts driven_wire_bits wref wire i (st, input_bits)))) =
        mod_wires (st_module st) @ new_wire_of (env_new_id e (Suc (autoidx st))) # ws \<and>
      cell_type cell = env_escape_id e (buf_celltype cfg) \<and>
      fst ` set (connections cell) =
        {env_escape_id e (buf_portname cfg), env_escape_id e (buf_portname2 cfg)} \<and>
      getPort cell (env_escape_id e (buf_portname2 cfg)) =
        Inr [WireBit (length (mod_wires (st_module st))) 0] \<and>
      (env_escape_id e (buf_portname cfg) \<noteq> env_escape_id e (buf_portname2 cfg) \<longrightarrow>
         getPort cell (env_escape_id e (buf_portname cfg)) = Inr [env_sigmap e (WireBit wref i)])"
proof -
  let ?b = "env_sigmap e (WireBit wref i)"
  from insert_buffer_with_buffer [OF assms(4,5), of e ?b]
  obtain cs ws where
    "mod_cells (st_module (insert_buffer e cfg wire ?b st)) =
       mod_cells (st_module st) @ buffer_cell_of e cfg ?b st # cs"
    "mod_wires (st_module (insert_buffer e cfg wire ?b st)) =
       mod_wires (st_module st) @ new_wire_of (env_new_id e (Suc (autoidx st))) # ws"
    by blast
  then show ?thesis
    unfolding process_bit_inserts [OF assms(1,2,3)]
    using getPort_buffer_cell_of [of e cfg ?b st] by blast
qed


definition pad_cell_of :: "env \<Rightarrow> config \<Rightarrow> sigbit \<Rightarrow> pass_state \<Rightarrow> cell" where
  "pad_cell_of e cfg b st =
     setPort_cell (env_escape_id e (inpad_portname2 cfg))
       [WireBit (length (mod_wires (st_module st))) 0]
       (setPort_cell (env_escape_id e (inpad_portname cfg)) [b]
          \<lparr>cell_name = env_new_id e (autoidx st),
           cell_type = env_escape_id e (inpad_celltype cfg), connections = []\<rparr>)"

lemma insert_buffer_pad_only:
  assumes "is_input cfg wire (st_module st)" and "\<not> buffer_inputs cfg"
  shows "insert_buffer e cfg wire b st =
     st\<lparr>st_module := (st_module st)
          \<lparr>mod_cells := mod_cells (st_module st) @ [pad_cell_of e cfg b st],
           mod_wires := mod_wires (st_module st) @
             [new_wire_of (env_new_id e (Suc (autoidx st)))]\<rparr>,
        autoidx := Suc (Suc (autoidx st)),
        buffered_bits := (buffered_bits st)
          (b \<mapsto> (length (mod_cells (st_module st)), length (mod_wires (st_module st))))\<rparr>"
  using assms
  by (simp add: insert_buffer_def add_cell_def add_wire_def set_port_def addCell_def addWire_def
      setPort_def Let_def new_wire_of_def pad_cell_of_def)

lemma getPort_pad_cell_of:
  "getPort (pad_cell_of e cfg b st) (env_escape_id e (inpad_portname2 cfg)) =
     Inr [WireBit (length (mod_wires (st_module st))) 0]"
  "env_escape_id e (inpad_portname cfg) \<noteq> env_escape_id e (inpad_portname2 cfg) \<Longrightarrow>
   getPort (pad_cell_of e cfg b st) (env_escape_id e (inpad_portname cfg)) = Inr [b]"
  "cell_type (pad_cell_of e cfg b st) = env_escape_id e (inpad_celltype cfg)"
  "fst ` set (connections (pad_cell_of e cfg b st)) =
     {env_escape_id e (inpad_portname cfg), env_escape_id e (inpad_portname2 cfg)}"
proof -
  show "getPort (pad_cell_of e cfg b st) (env_escape_id e (inpad_portname2 cfg)) =
     Inr [WireBit (length (mod_wires (st_module st))) 0]"
    unfolding pad_cell_of_def by (rule getPort_setPort_cell_same)
  show "getPort (pad_cell_of e cfg b st) (env_escape_id e (inpad_portname cfg)) = Inr [b]"
    if "env_escape_id e (inpad_portname cfg) \<noteq> env_escape_id e (inpad_portname2 cfg)"
    unfolding pad_cell_of_def
    using that by (simp add: getPort_setPort_cell_other getPort_setPort_cell_same)
  show "cell_type (pad_cell_of e cfg b st) = env_escape_id e (inpad_celltype cfg)"
    by (simp add: pad_cell_of_def)
  show "fst ` set (connections (pad_cell_of e cfg b st)) =
     {env_escape_id e (inpad_portname cfg), env_escape_id e (inpad_portname2 cfg)}"
    by (auto simp: pad_cell_of_def setPort_cell_def)
qed

lemma compute_buffer_inputs_False:
  assumes "d (env_escape_id e ic) = Some inpad_mod"
    and "find (\<lambda>w. wire_name w = env_escape_id e bp) (mod_wires inpad_mod) = Some buf_wire"
    and "get_bool_attribute (attributes buf_wire) (ID ''clkbuf_driver'')"
  shows "\<not> compute_buffer_inputs e d ic bp"
  using assms by (simp add: compute_buffer_inputs_def)

text \<open>
  C7 (as the code has it). When the pad cell type is a module of the design that has a
  wire with the name of the buffer's first port carrying \<^verbatim>\<open>clkbuf_driver\<close>, the flag
  \<^verbatim>\<open>buffer_inputs\<close> is false, and then for a sink bit on an input port of the top module
  exactly one cell is added: the pad cell, its second port on a new internal wire and its
  first port on the canonical bit. No buffer cell is added, whatever buffer type is
  configured.
\<close>

theorem pad_only_on_top_input:
  assumes "d (env_escape_id e (inpad_celltype cfg)) = Some inpad_mod"
    and "find (\<lambda>w. wire_name w = env_escape_id e (buf_portname cfg)) (mod_wires inpad_mod) =
           Some buf_wire"
    and "get_bool_attribute (attributes buf_wire) (ID ''clkbuf_driver'')"
    and "buffer_inputs cfg = compute_buffer_inputs e d (inpad_celltype cfg) (buf_portname cfg)"
    and "inpad_celltype cfg \<noteq> []" and "port_input wire" and "is_top (st_module st)"
    and "env_sigmap e (WireBit wref i) \<notin> buf_wire_bits ts"
    and "env_sigmap e (WireBit wref i) \<in> sink_wire_bits ts"
  shows "\<exists>cell.
      mod_cells (st_module (fst (process_bit e cfg ts driven_wire_bits wref wire i (st, input_bits)))) =
        mod_cells (st_module st) @ [cell] \<and>
      mod_wires (st_module (fst (process_bit e cfg ts driven_wire_bits wref wire i (st, input_bits)))) =
        mod_wires (st_module st) @ [new_wire_of (env_new_id e (Suc (autoidx st)))] \<and>
      cell_type cell = env_escape_id e (inpad_celltype cfg) \<and>
      fst ` set (connections cell) =
        {env_escape_id e (inpad_portname cfg), env_escape_id e (inpad_portname2 cfg)} \<and>
      getPort cell (env_escape_id e (inpad_portname2 cfg)) =
        Inr [WireBit (length (mod_wires (st_module st))) 0] \<and>
      (env_escape_id e (inpad_portname cfg) \<noteq> env_escape_id e (inpad_portname2 cfg) \<longrightarrow>
         getPort cell (env_escape_id e (inpad_portname cfg)) = Inr [env_sigmap e (WireBit wref i)])"
proof -
  let ?b = "env_sigmap e (WireBit wref i)"
  have nb: "\<not> buffer_inputs cfg"
    using compute_buffer_inputs_False
      [of d e "inpad_celltype cfg" inpad_mod "buf_portname cfg" buf_wire] assms(1,2,3,4)
    by simp
  have inp: "is_input cfg wire (st_module st)"
    using assms(5,6,7) by (simp add: is_input_def)
  have "fst (process_bit e cfg ts driven_wire_bits wref wire i (st, input_bits)) =
          insert_buffer e cfg wire ?b st"
    using process_bit_inserts [OF assms(8,9)] assms(6,7) by simp
  then show ?thesis
    unfolding insert_buffer_pad_only [OF inp nb]
    using getPort_pad_cell_of [of e cfg ?b st]
    by (intro exI [of _ "pad_cell_of e cfg ?b st"]) simp
qed

subsection \<open>Examples\<close>

text \<open>
  A module with an input port \<open>clk\<close> (wire 0) joined to an internal net \<open>n\<close> (wire 1) that
  a cell drives and that clocks a flip-flop; the signal map sends the port bit to the
  net's bit.
\<close>

definition alias_env :: env where
  "alias_env =
     \<lparr>env_sigmap = (\<lambda>b. if b = WireBit 0 0 then WireBit 1 0 else b),
      env_output = (\<lambda>t p. p = ''O'' \<or> p = ID ''O''),
      env_selected = (\<lambda>n. True),
      env_escape_id = (\<lambda>s. if s = [] \<or> hd s = CHR 0x5C \<or> hd s = CHR ''$'' then s else CHR 0x5C # s),
      env_new_id = (\<lambda>n. ''$auto$'' @ replicate n (CHR ''i'')),
      env_hash = (\<lambda>b. case b of WireBit w i \<Rightarrow> 2 * w + i | ConstBit s \<Rightarrow> 0)\<rparr>"

definition bufg_config :: config where
  "bufg_config =
     \<lparr>buf_celltype = ''BUFG'', buf_portname = ''O'', buf_portname2 = ''I'',
      inpad_celltype = [], inpad_portname = [], inpad_portname2 = [],
      select = False, buffer_inputs = True\<rparr>"

definition clk_wire :: wire where
  "clk_wire = \<lparr>wire_name = ''clk'', width = 1, port_id = 1, port_input = True,
     port_output = False, attributes = []\<rparr>"

definition net_wire :: wire where
  "net_wire = \<lparr>wire_name = ''n'', width = 1, port_id = 0, port_input = False,
     port_output = False, attributes = []\<rparr>"

definition alias_cells :: "cell list" where
  "alias_cells =
     [\<lparr>cell_name = ''gen'', cell_type = ''GEN'', connections = [(''O'', [WireBit 1 0])]\<rparr>,
      \<lparr>cell_name = ''ff'', cell_type = ''FDRE'', connections = [(''C'', [WireBit 1 0])]\<rparr>]"

definition alias_module :: "bool \<Rightarrow> rtlil_module" where
  "alias_module tp =
     \<lparr>mod_name = ''m'',
      mod_attributes = [(ID ''top'', \<lparr>as_bool = tp, decode_string = []\<rparr>)],
      mod_wires = [clk_wire, net_wire], mod_cells = alias_cells,
      mod_connections = [([WireBit 1 0], [WireBit 0 0])], ports = [''clk'']\<rparr>"

definition alias_tabs :: tag_tables where
  "alias_tabs = \<lparr>sink_ports = {(''FDRE'', ''C'', 0)}, buf_ports = {},
     inv_ports_out = (\<lambda>x. None), inv_ports_in = (\<lambda>x. None)\<rparr>"

definition alias_state :: "bool \<Rightarrow> pass_state" where
  "alias_state tp =
     \<lparr>st_module = alias_module tp, st_tabs = alias_tabs, buffered_bits = (\<lambda>b. None),
      input_queue = [], autoidx = 0\<rparr>"

definition alias_tags :: tag_sets where
  "alias_tags = collect_tag_sets (env_sigmap alias_env) alias_tabs alias_cells"


text \<open>
  A top module whose input port \<open>clk\<close> clocks a flip-flop directly, and two pad cell types:
  \<open>IBUF\<close> with driver port \<open>O\<close> and \<open>IBUFG\<close> with driver port \<open>Y\<close>.
\<close>

definition clk_module :: rtlil_module where
  "clk_module =
     \<lparr>mod_name = ''top'',
      mod_attributes = [(ID ''top'', \<lparr>as_bool = True, decode_string = []\<rparr>)],
      mod_wires = [clk_wire],
      mod_cells = [\<lparr>cell_name = ''ff'', cell_type = ''FDRE'', connections = [(''C'', [WireBit 0 0])]\<rparr>],
      mod_connections = [], ports = [''clk'']\<rparr>"

definition clk_state :: pass_state where
  "clk_state =
     \<lparr>st_module = clk_module, st_tabs = alias_tabs, buffered_bits = (\<lambda>b. None),
      input_queue = [], autoidx = 0\<rparr>"

definition plain_env :: env where
  "plain_env = alias_env\<lparr>env_sigmap := (\<lambda>b. b)\<rparr>"

definition clk_tags :: tag_sets where
  "clk_tags = collect_tag_sets (env_sigmap plain_env) alias_tabs (mod_cells clk_module)"

definition driver_attr :: "(idstring \<times> const) list" where
  "driver_attr = [(ID ''clkbuf_driver'', \<lparr>as_bool = True, decode_string = []\<rparr>)]"

definition ibuf_module :: rtlil_module where
  "ibuf_module =
     \<lparr>mod_name = ID ''IBUF'',
      mod_attributes = [(ID ''blackbox'', \<lparr>as_bool = True, decode_string = []\<rparr>)],
      mod_wires =
        [\<lparr>wire_name = ID ''O'', width = 1, port_id = 1, port_input = False,
          port_output = True, attributes = driver_attr\<rparr>,
         \<lparr>wire_name = ID ''I'', width = 1, port_id = 2, port_input = True,
          port_output = False, attributes = []\<rparr>],
      mod_cells = [], mod_connections = [], ports = [ID ''O'', ID ''I'']\<rparr>"

definition ibufg_module :: rtlil_module where
  "ibufg_module =
     \<lparr>mod_name = ID ''IBUFG'',
      mod_attributes = [(ID ''blackbox'', \<lparr>as_bool = True, decode_string = []\<rparr>)],
      mod_wires =
        [\<lparr>wire_name = ID ''Y'', width = 1, port_id = 1, port_input = False,
          port_output = True, attributes = driver_attr\<rparr>,
         \<lparr>wire_name = ID ''PAD'', width = 1, port_id = 2, port_input = True,
          port_output = False, attributes = []\<rparr>],
      mod_cells = [], mod_connections = [], ports = [ID ''Y'', ID ''PAD'']\<rparr>"

definition pad_design :: design where
  "pad_design = [ID ''IBUF'' \<mapsto> ibuf_module, ID ''IBUFG'' \<mapsto> ibufg_module]"

definition ibuf_config :: config where
  "ibuf_config =
     \<lparr>buf_celltype = ''BUFG'', buf_portname = ''O'', buf_portname2 = ''I'',
      inpad_celltype = ''IBUF'', inpad_portname = ''O'', inpad_portname2 = ''I'',
      select = False,
      buffer_inputs = compute_buffer_inputs plain_env pad_design ''IBUF'' ''O''\<rparr>"

definition ibufg_config :: config where
  "ibufg_config =
     \<lparr>buf_celltype = ''BUFG'', buf_portname = ''O'', buf_portname2 = ''I'',
      inpad_celltype = ''IBUFG'', inpad_portname = ''Y'', inpad_portname2 = ''PAD'',
      select = False,
      buffer_inputs = compute_buffer_inputs plain_env pad_design ''IBUFG'' ''O''\<rparr>"



lemma alias_facts:
  "env_sigmap alias_env (WireBit 0 0) = WireBit 1 0"
  "env_sigmap alias_env (WireBit 0 0) \<notin> buf_wire_bits alias_tags"
  "env_sigmap alias_env (WireBit 0 0) \<in> sink_wire_bits alias_tags"
  "WireBit 0 0 \<notin> driven_bits alias_env alias_cells"
  "env_sigmap alias_env (WireBit 0 0) \<in> driven_bits alias_env alias_cells"
  "port_input clk_wire"
  "is_top (st_module (alias_state True))"
  "\<not> is_top (st_module (alias_state False))"
  "buf_celltype bufg_config \<noteq> []"
  "\<not> is_input bufg_config clk_wire (st_module (alias_state True))"
  by code_simp+



theorem inserted_buffer_ports_witness:
  "env_sigmap alias_env (WireBit 0 0) \<notin> buf_wire_bits alias_tags \<and>
   env_sigmap alias_env (WireBit 0 0) \<in> sink_wire_bits alias_tags \<and>
   port_input clk_wire \<and> is_top (st_module (alias_state True)) \<and>
   buf_celltype bufg_config \<noteq> [] \<and>
   \<not> is_input bufg_config clk_wire (st_module (alias_state True)) \<and>
   (\<exists>cell cs ws.
      mod_cells (st_module (fst (process_bit alias_env bufg_config alias_tags
          (driven_bits alias_env alias_cells) 0 clk_wire 0 (alias_state True, {})))) =
        mod_cells (st_module (alias_state True)) @ cell # cs \<and>
      mod_wires (st_module (fst (process_bit alias_env bufg_config alias_tags
          (driven_bits alias_env alias_cells) 0 clk_wire 0 (alias_state True, {})))) =
        mod_wires (st_module (alias_state True)) @
          new_wire_of (env_new_id alias_env (Suc (autoidx (alias_state True)))) # ws \<and>
      cell_type cell = env_escape_id alias_env (buf_celltype bufg_config) \<and>
      fst ` set (connections cell) =
        {env_escape_id alias_env (buf_portname bufg_config),
         env_escape_id alias_env (buf_portname2 bufg_config)} \<and>
      getPort cell (env_escape_id alias_env (buf_portname2 bufg_config)) =
        Inr [WireBit (length (mod_wires (st_module (alias_state True)))) 0] \<and>
      getPort cell (env_escape_id alias_env (buf_portname bufg_config)) =
        Inr [env_sigmap alias_env (WireBit 0 0)])"
proof -
  have ne: "env_escape_id alias_env (buf_portname bufg_config) \<noteq>
            env_escape_id alias_env (buf_portname2 bufg_config)"
    by code_simp
  have "\<exists>cell cs ws.
      mod_cells (st_module (fst (process_bit alias_env bufg_config alias_tags
          (driven_bits alias_env alias_cells) 0 clk_wire 0 (alias_state True, {})))) =
        mod_cells (st_module (alias_state True)) @ cell # cs \<and>
      mod_wires (st_module (fst (process_bit alias_env bufg_config alias_tags
          (driven_bits alias_env alias_cells) 0 clk_wire 0 (alias_state True, {})))) =
        mod_wires (st_module (alias_state True)) @
          new_wire_of (env_new_id alias_env (Suc (autoidx (alias_state True)))) # ws \<and>
      cell_type cell = env_escape_id alias_env (buf_celltype bufg_config) \<and>
      fst ` set (connections cell) =
        {env_escape_id alias_env (buf_portname bufg_config),
         env_escape_id alias_env (buf_portname2 bufg_config)} \<and>
      getPort cell (env_escape_id alias_env (buf_portname2 bufg_config)) =
        Inr [WireBit (length (mod_wires (st_module (alias_state True)))) 0] \<and>
      getPort cell (env_escape_id alias_env (buf_portname bufg_config)) =
        Inr [env_sigmap alias_env (WireBit 0 0)]"
    using inserted_buffer_ports [of alias_env 0 0 alias_tags "driven_bits alias_env alias_cells"
        clk_wire "alias_state True" bufg_config "{}"] alias_facts ne
    by simp
  then show ?thesis using alias_facts by simp
qed

text \<open>
  C3 (as the specification words it) fails: with the port pair \<open>O:I\<close> the inserted cell's
  input port \<open>I\<close> is on the new wire (wire 2) and its output port \<open>O\<close> is on the canonical
  bit (bit 0 of wire 1).
\<close>

theorem buffer_ports_swapped_counterexample:
  "split_portname_pair ''O:I'' [] = (buf_portname bufg_config, buf_portname2 bufg_config) \<and>
   env_sigmap alias_env (WireBit 0 0) = WireBit 1 0 \<and>
   length (mod_wires (st_module (alias_state True))) = 2 \<and>
   mod_cells (st_module (fst (process_bit alias_env bufg_config alias_tags
       (driven_bits alias_env alias_cells) 0 clk_wire 0 (alias_state True, {})))) =
     mod_cells (st_module (alias_state True)) @
       [\<lparr>cell_name = env_new_id alias_env 0, cell_type = ID ''BUFG'',
         connections = [(ID ''O'', [WireBit 1 0]), (ID ''I'', [WireBit 2 0])]\<rparr>]"
  by code_simp


definition ibuf_out_wire :: wire where
  "ibuf_out_wire = \<lparr>wire_name = ID ''O'', width = 1, port_id = 1, port_input = False,
          port_output = True, attributes = driver_attr\<rparr>"

lemma clk_facts:
  "pad_design (env_escape_id plain_env (inpad_celltype ibuf_config)) = Some ibuf_module"
  "find (\<lambda>w. wire_name w = env_escape_id plain_env (buf_portname ibuf_config))
     (mod_wires ibuf_module) = Some ibuf_out_wire"
  "get_bool_attribute (attributes ibuf_out_wire) (ID ''clkbuf_driver'')"
  "buffer_inputs ibuf_config =
     compute_buffer_inputs plain_env pad_design (inpad_celltype ibuf_config) (buf_portname ibuf_config)"
  "inpad_celltype ibuf_config \<noteq> []"
  "buf_celltype ibuf_config \<noteq> []"
  "is_top (st_module clk_state)"
  "env_sigmap plain_env (WireBit 0 0) \<notin> buf_wire_bits clk_tags"
  "env_sigmap plain_env (WireBit 0 0) \<in> sink_wire_bits clk_tags"
  "env_escape_id plain_env (inpad_portname ibuf_config) \<noteq>
     env_escape_id plain_env (inpad_portname2 ibuf_config)"
  by code_simp+

theorem pad_only_on_top_input_witness:
  "pad_design (env_escape_id plain_env (inpad_celltype ibuf_config)) = Some ibuf_module \<and>
   find (\<lambda>w. wire_name w = env_escape_id plain_env (buf_portname ibuf_config))
     (mod_wires ibuf_module) = Some ibuf_out_wire \<and>
   get_bool_attribute (attributes ibuf_out_wire) (ID ''clkbuf_driver'') \<and>
   buffer_inputs ibuf_config =
     compute_buffer_inputs plain_env pad_design (inpad_celltype ibuf_config) (buf_portname ibuf_config) \<and>
   inpad_celltype ibuf_config \<noteq> [] \<and> buf_celltype ibuf_config \<noteq> [] \<and>
   port_input clk_wire \<and> is_top (st_module clk_state) \<and>
   env_sigmap plain_env (WireBit 0 0) \<notin> buf_wire_bits clk_tags \<and>
   env_sigmap plain_env (WireBit 0 0) \<in> sink_wire_bits clk_tags \<and>
   (\<exists>cell.
      mod_cells (st_module (fst (process_bit plain_env ibuf_config clk_tags
          (driven_bits plain_env (mod_cells clk_module)) 0 clk_wire 0 (clk_state, {})))) =
        mod_cells (st_module clk_state) @ [cell] \<and>
      mod_wires (st_module (fst (process_bit plain_env ibuf_config clk_tags
          (driven_bits plain_env (mod_cells clk_module)) 0 clk_wire 0 (clk_state, {})))) =
        mod_wires (st_module clk_state) @
          [new_wire_of (env_new_id plain_env (Suc (autoidx clk_state)))] \<and>
      cell_type cell = env_escape_id plain_env (inpad_celltype ibuf_config) \<and>
      fst ` set (connections cell) =
        {env_escape_id plain_env (inpad_portname ibuf_config),
         env_escape_id plain_env (inpad_portname2 ibuf_config)} \<and>
      getPort cell (env_escape_id plain_env (inpad_portname2 ibuf_config)) =
        Inr [WireBit (length (mod_wires (st_module clk_state))) 0] \<and>
      getPort cell (env_escape_id plain_env (inpad_portname ibuf_config)) =
        Inr [env_sigmap plain_env (WireBit 0 0)])"
proof -
  have pi: "port_input clk_wire" by code_simp
  have "\<exists>cell.
      mod_cells (st_module (fst (process_bit plain_env ibuf_config clk_tags
          (driven_bits plain_env (mod_cells clk_module)) 0 clk_wire 0 (clk_state, {})))) =
        mod_cells (st_module clk_state) @ [cell] \<and>
      mod_wires (st_module (fst (process_bit plain_env ibuf_config clk_tags
          (driven_bits plain_env (mod_cells clk_module)) 0 clk_wire 0 (clk_state, {})))) =
        mod_wires (st_module clk_state) @
          [new_wire_of (env_new_id plain_env (Suc (autoidx clk_state)))] \<and>
      cell_type cell = env_escape_id plain_env (inpad_celltype ibuf_config) \<and>
      fst ` set (connections cell) =
        {env_escape_id plain_env (inpad_portname ibuf_config),
         env_escape_id plain_env (inpad_portname2 ibuf_config)} \<and>
      getPort cell (env_escape_id plain_env (inpad_portname2 ibuf_config)) =
        Inr [WireBit (length (mod_wires (st_module clk_state))) 0] \<and>
      getPort cell (env_escape_id plain_env (inpad_portname ibuf_config)) =
        Inr [env_sigmap plain_env (WireBit 0 0)]"
    using pad_only_on_top_input [of pad_design plain_env ibuf_config ibuf_module ibuf_out_wire
        clk_wire clk_state 0 0 clk_tags "driven_bits plain_env (mod_cells clk_module)" "{}"]
      clk_facts pi
    by simp
  then show ?thesis using clk_facts pi by simp
qed

text \<open>
  C7 (as the specification words it) fails: the pad type \<open>IBUFG\<close> declares the driver port
  \<open>Y\<close>, the buffer's first port is called \<open>O\<close>, and both a buffer and a pad are inserted for
  the sink bit on the top-level input.
\<close>

theorem pad_and_buffer_counterexample:
  "inpad_celltype ibufg_config \<noteq> [] \<and> buf_celltype ibufg_config \<noteq> [] \<and>
   pad_design (env_escape_id plain_env (inpad_celltype ibufg_config)) = Some ibufg_module \<and>
   wire_name (hd (mod_wires ibufg_module)) = env_escape_id plain_env (inpad_portname ibufg_config) \<and>
   get_bool_attribute (attributes (hd (mod_wires ibufg_module))) (ID ''clkbuf_driver'') \<and>
   buffer_inputs ibufg_config =
     compute_buffer_inputs plain_env pad_design (inpad_celltype ibufg_config)
       (buf_portname ibufg_config) \<and>
   port_input clk_wire \<and> is_top (st_module clk_state) \<and>
   env_sigmap plain_env (WireBit 0 0) \<notin> buf_wire_bits clk_tags \<and>
   env_sigmap plain_env (WireBit 0 0) \<in> sink_wire_bits clk_tags \<and>
   map cell_type (mod_cells (st_module (fst (process_bit plain_env ibufg_config clk_tags
       (driven_bits plain_env (mod_cells clk_module)) 0 clk_wire 0 (clk_state, {}))))) =
     [''FDRE'', ID ''BUFG'', ID ''IBUFG'']"
  by code_simp

subsection \<open>Ports across the processing of a module\<close>

lemma set_port_wires [simp]:
  "mod_wires (st_module (set_port c p sig st)) = mod_wires (st_module st)"
  "input_queue (set_port c p sig st) = input_queue st"
  by (simp_all add: set_port_def setPort_def)

lemma add_cell_wires [simp]:
  "mod_wires (st_module (fst (add_cell e t st))) = mod_wires (st_module st)"
  "input_queue (fst (add_cell e t st)) = input_queue st"
  by (simp_all add: add_cell_def addCell_def)

lemma add_wire_wires [simp]:
  "mod_wires (st_module (fst (add_wire e st))) =
     mod_wires (st_module st) @ [new_wire_of (env_new_id e (autoidx st))]"
  "input_queue (fst (add_wire e st)) = input_queue st"
  by (simp_all add: add_wire_def addWire_def new_wire_of_def)

lemma mark_port_wires [simp]:
  "st_module (mark_buf_port w i st) = st_module st"
  "input_queue (mark_buf_port w i st) = input_queue st"
  "st_module (mark_sink_port w i st) = st_module st"
  "input_queue (mark_sink_port w i st) = input_queue st"
  by (simp_all add: mark_buf_port_def mark_sink_port_def)

lemma insert_buffer_wires:
  "\<exists>ws. mod_wires (st_module (insert_buffer e cfg wire b st)) = mod_wires (st_module st) @ ws"
  "input_queue (insert_buffer e cfg wire b st) = input_queue st"
  by (simp_all add: insert_buffer_def Let_def split_beta split: option.splits)


lemma process_bit_wires:
  "\<exists>ws. mod_wires (st_module (fst (process_bit e cfg ts dr wref wire i acc))) =
          mod_wires (st_module (fst acc)) @ ws"
  "input_queue (fst (process_bit e cfg ts dr wref wire i acc)) = input_queue (fst acc)"
  using insert_buffer_wires [of e cfg wire "env_sigmap e (WireBit wref i)" "fst acc"]
  by (auto simp: process_bit_def Let_def split: prod.splits)

lemma fold_process_bit_wires:
  "\<exists>ws. mod_wires (st_module (fst (fold (process_bit e cfg ts dr wref wire) is acc))) =
          mod_wires (st_module (fst acc)) @ ws"
  "input_queue (fst (fold (process_bit e cfg ts dr wref wire) is acc)) = input_queue (fst acc)"
proof (induction "is" arbitrary: acc)
  case Nil
  { case 1 show ?case by simp }
  { case 2 show ?case by simp }
next
  case (Cons i "is")
  { case 1
    from process_bit_wires(1) [of e cfg ts dr wref wire i acc]
    obtain ws1 where a: "mod_wires (st_module (fst (process_bit e cfg ts dr wref wire i acc))) =
          mod_wires (st_module (fst acc)) @ ws1" by blast
    from Cons.IH(1) [of "process_bit e cfg ts dr wref wire i acc"]
    obtain ws2 where "mod_wires (st_module (fst (fold (process_bit e cfg ts dr wref wire) is
          (process_bit e cfg ts dr wref wire i acc)))) =
          mod_wires (st_module (fst (process_bit e cfg ts dr wref wire i acc))) @ ws2" by blast
    with a show ?case by simp }
  { case 2
    show ?case using Cons.IH(2) [of "process_bit e cfg ts dr wref wire i acc"]
        process_bit_wires(2) [of e cfg ts dr wref wire i acc] by simp }
qed

lemma bypass_wire_wires [simp]:
  "st_module (bypass_wire wire st) = st_module st"
  "input_queue (bypass_wire wire st) = input_queue st"
proof -
  have "st_module (fold (mark_buf_port wire) is st) = st_module st \<and>
        input_queue (fold (mark_buf_port wire) is st) = input_queue st" for "is"
    by (induction "is" arbitrary: st) simp_all
  then show "st_module (bypass_wire wire st) = st_module st"
    "input_queue (bypass_wire wire st) = input_queue st"
    by (simp_all add: bypass_wire_def)
qed

lemma connect_wires [simp]: "mod_wires (connect a b m) = mod_wires m"
  by (simp add: connect_def)

lemma rewire_input_port_wires:
  "mod_wires (st_module (rewire_input_port e wref wire st)) =
     mod_wires (st_module st) @ [wire\<lparr>wire_name := env_new_id e (autoidx st)\<rparr>]"
  "input_queue (rewire_input_port e wref wire st) =
     input_queue st @ [(wref, length (mod_wires (st_module st)))]"
proof -
  have f: "mod_wires (fold (\<lambda>i m.
                 (case buffered_bits st (env_sigmap e (WireBit wref i)) of
                    Some (c, iwire) \<Rightarrow> connect [WireBit iwire 0] [WireBit nw i] m
                  | None \<Rightarrow> connect [WireBit wref i] [WireBit nw i] m)) is m) = mod_wires m"
    for "is" m nw
    by (induction "is" arbitrary: m) (simp_all split: option.splits)
  show "mod_wires (st_module (rewire_input_port e wref wire st)) =
     mod_wires (st_module st) @ [wire\<lparr>wire_name := env_new_id e (autoidx st)\<rparr>]"
    by (simp add: rewire_input_port_def add_wire_like_def addWire_like_def f)
  show "input_queue (rewire_input_port e wref wire st) =
     input_queue st @ [(wref, length (mod_wires (st_module st)))]"
    by (simp add: rewire_input_port_def add_wire_like_def addWire_like_def)
qed

lemma process_wire_wires:
  "(\<exists>ws. mod_wires (st_module (process_wire e cfg ts dr (wref, wire) st)) =
           mod_wires (st_module st) @ ws \<and>
         input_queue (process_wire e cfg ts dr (wref, wire) st) = input_queue st) \<or>
   (\<exists>ws name. mod_wires (st_module (process_wire e cfg ts dr (wref, wire) st)) =
           mod_wires (st_module st) @ ws @ [wire\<lparr>wire_name := name\<rparr>] \<and>
         input_queue (process_wire e cfg ts dr (wref, wire) st) =
           input_queue st @ [(wref, length (mod_wires (st_module st) @ ws))])"
proof -
  let ?r = "fold (process_bit e cfg ts dr wref wire) [0..<width wire] (st, {})"
  from fold_process_bit_wires [of e cfg ts dr wref wire "[0..<width wire]" "(st, {})"]
  obtain ws where ws: "mod_wires (st_module (fst ?r)) = mod_wires (st_module st) @ ws"
    and q: "input_queue (fst ?r) = input_queue st" by auto
  show ?thesis
  proof (cases "port_input wire \<and> port_output wire")
    case True
    then show ?thesis by (simp add: process_wire_def)
  next
    case nb: False
    show ?thesis
    proof (cases "wire_processed e cfg wire")
      case False
      then show ?thesis using nb by (auto simp: process_wire_def)
    next
      case True
      show ?thesis
      proof (cases "snd ?r = {}")
        case e: True
        then have "process_wire e cfg ts dr (wref, wire) st = fst ?r"
          using nb True by (cases ?r) (auto simp: process_wire_def)
        then show ?thesis using ws q by simp
      next
        case ne: False
        then have "process_wire e cfg ts dr (wref, wire) st =
            rewire_input_port e wref wire (fst ?r)"
          using nb True by (cases ?r) (auto simp: process_wire_def)
        then have "mod_wires (st_module (process_wire e cfg ts dr (wref, wire) st)) =
           mod_wires (st_module st) @ ws @
             [wire\<lparr>wire_name := env_new_id e (autoidx (fst ?r))\<rparr>] \<and>
         input_queue (process_wire e cfg ts dr (wref, wire) st) =
           input_queue st @ [(wref, length (mod_wires (st_module st) @ ws))]"
          using ws q by (simp add: rewire_input_port_wires)
        then show ?thesis by blast
      qed
    qed
  qed
qed


definition queue_ok :: "wire list \<Rightarrow> wire list \<Rightarrow> (nat \<times> nat) list \<Rightarrow> bool" where
  "queue_ok ws0 ws q =
     ((\<exists>ext. ws = ws0 @ ext) \<and>
      (\<forall>(wref, nw)\<in>set q. wref < length ws0 \<and> length ws0 \<le> nw \<and> nw < length ws \<and>
          (\<exists>name. ws ! nw = (ws0 ! wref)\<lparr>wire_name := name\<rparr>)) \<and>
      distinct (map fst q) \<and> distinct (map snd q))"

lemma queue_ok_extend:
  assumes "queue_ok ws0 ws q"
  shows "queue_ok ws0 (ws @ ext) q"
proof -
  from assms obtain ext0 where "ws = ws0 @ ext0" by (auto simp: queue_ok_def)
  then have "ws @ ext = ws0 @ (ext0 @ ext)" by simp
  then have a: "\<exists>ext'. ws @ ext = ws0 @ ext'" by blast
  have b: "\<forall>(wref, nw)\<in>set q. wref < length ws0 \<and> length ws0 \<le> nw \<and> nw < length (ws @ ext) \<and>
          (\<exists>name. (ws @ ext) ! nw = (ws0 ! wref)\<lparr>wire_name := name\<rparr>)"
    using assms by (auto simp: queue_ok_def nth_append)
  show ?thesis unfolding queue_ok_def using a b assms by (simp add: queue_ok_def)
qed

lemma queue_ok_push:
  assumes ok: "queue_ok ws0 ws q" and wref: "wref < length ws0" "wref \<notin> fst ` set q"
  shows "queue_ok ws0 (ws @ ext @ [(ws0 ! wref)\<lparr>wire_name := name\<rparr>])
           (q @ [(wref, length (ws @ ext))])"
proof -
  let ?ws' = "ws @ ext @ [(ws0 ! wref)\<lparr>wire_name := name\<rparr>]"
  have ok': "queue_ok ws0 ?ws' q" using queue_ok_extend [OF ok] .
  from ok obtain ext0 where ws: "ws = ws0 @ ext0" by (auto simp: queue_ok_def)
  have old: "\<forall>(w, nw)\<in>set q. nw < length ws" using ok by (auto simp: queue_ok_def)
  have new: "length ws0 \<le> length (ws @ ext)" "length (ws @ ext) < length ?ws'"
    "?ws' ! length (ws @ ext) = (ws0 ! wref)\<lparr>wire_name := name\<rparr>"
    using ws by (simp_all add: nth_append)
  have dsnd: "length (ws @ ext) \<notin> snd ` set q" using old by fastforce
  show ?thesis
    unfolding queue_ok_def
  proof (intro conjI)
    show "\<exists>e. ?ws' = ws0 @ e" using ok' by (simp add: queue_ok_def)
    show "\<forall>(wref, nw)\<in>set (q @ [(wref, length (ws @ ext))]).
       wref < length ws0 \<and> length ws0 \<le> nw \<and> nw < length ?ws' \<and>
       (\<exists>name'. ?ws' ! nw = (ws0 ! wref)\<lparr>wire_name := name'\<rparr>)"
    proof
      fix x assume x: "x \<in> set (q @ [(wref, length (ws @ ext))])"
      show "case x of (wref, nw) \<Rightarrow> wref < length ws0 \<and> length ws0 \<le> nw \<and> nw < length ?ws' \<and>
       (\<exists>name'. ?ws' ! nw = (ws0 ! wref)\<lparr>wire_name := name'\<rparr>)"
      proof (cases "x \<in> set q")
        case True
        then show ?thesis using ok' unfolding queue_ok_def by blast
      next
        case False
        then have "x = (wref, length (ws @ ext))" using x by simp
        then show ?thesis using wref(1) new by auto
      qed
    qed
    show "distinct (map fst (q @ [(wref, length (ws @ ext))]))"
      using ok wref(2) by (simp add: queue_ok_def)
    show "distinct (map snd (q @ [(wref, length (ws @ ext))]))"
      using ok dsnd by (simp add: queue_ok_def)
  qed
qed

lemma process_wire_ok:
  assumes ok: "queue_ok ws0 (mod_wires (st_module st)) (input_queue st)"
    and wref: "wref < length ws0" "ws0 ! wref = wire" "wref \<notin> fst ` set (input_queue st)"
  shows "queue_ok ws0 (mod_wires (st_module (process_wire e cfg ts dr (wref, wire) st)))
           (input_queue (process_wire e cfg ts dr (wref, wire) st)) \<and>
         fst ` set (input_queue (process_wire e cfg ts dr (wref, wire) st))
           \<subseteq> insert wref (fst ` set (input_queue st))"
proof -
  from process_wire_wires [of e cfg ts dr wref wire st]
  consider (same) ws where
      "mod_wires (st_module (process_wire e cfg ts dr (wref, wire) st)) =
         mod_wires (st_module st) @ ws"
      "input_queue (process_wire e cfg ts dr (wref, wire) st) = input_queue st"
    | (push) ws name where
      "mod_wires (st_module (process_wire e cfg ts dr (wref, wire) st)) =
         mod_wires (st_module st) @ ws @ [wire\<lparr>wire_name := name\<rparr>]"
      "input_queue (process_wire e cfg ts dr (wref, wire) st) =
         input_queue st @ [(wref, length (mod_wires (st_module st) @ ws))]"
    by blast
  then show ?thesis
  proof cases
    case same
    then show ?thesis using queue_ok_extend [OF ok, of ws] by auto
  next
    case push
    have "queue_ok ws0 (mod_wires (st_module st) @ ws @ [(ws0 ! wref)\<lparr>wire_name := name\<rparr>])
           (input_queue st @ [(wref, length (mod_wires (st_module st) @ ws))])"
      using queue_ok_push [OF ok wref(1,3)] .
    then show ?thesis using push wref(2) by auto
  qed
qed

lemma insert_buffers_ok:
  assumes "queue_ok ws0 (mod_wires (st_module st)) (input_queue st)"
    and "distinct (map fst xs)"
    and "\<forall>(wref, wire)\<in>set xs. wref < length ws0 \<and> ws0 ! wref = wire"
    and "fst ` set xs \<inter> fst ` set (input_queue st) = {}"
  shows "queue_ok ws0 (mod_wires (st_module (insert_buffers e cfg ts dr xs st)))
           (input_queue (insert_buffers e cfg ts dr xs st))"
  using assms
proof (induction xs arbitrary: st)
  case Nil
  then show ?case by (simp add: insert_buffers_def)
next
  case (Cons x xs)
  obtain wref wire where x: "x = (wref, wire)" by (cases x)
  have w: "wref < length ws0" "ws0 ! wref = wire" "wref \<notin> fst ` set (input_queue st)"
    using Cons.prems(3,4) x by auto
  from process_wire_ok [OF Cons.prems(1) w, of e cfg ts dr]
  have ok1: "queue_ok ws0 (mod_wires (st_module (process_wire e cfg ts dr (wref, wire) st)))
           (input_queue (process_wire e cfg ts dr (wref, wire) st))"
    and sub: "fst ` set (input_queue (process_wire e cfg ts dr (wref, wire) st))
           \<subseteq> insert wref (fst ` set (input_queue st))" by simp_all
  have d: "distinct (map fst xs)" and nin: "wref \<notin> fst ` set xs"
    using Cons.prems(2) x by auto
  have "fst ` set xs \<inter> fst ` set (input_queue st) = {}" using Cons.prems(4) by auto
  then have "fst ` set xs \<inter> insert wref (fst ` set (input_queue st)) = {}"
    using nin by blast
  then have disj: "fst ` set xs \<inter>
      fst ` set (input_queue (process_wire e cfg ts dr (wref, wire) st)) = {}"
    using sub by blast
  have rest: "\<forall>(wref, wire)\<in>set xs. wref < length ws0 \<and> ws0 ! wref = wire"
    using Cons.prems(3) by simp
  from Cons.IH [OF ok1 d rest disj] show ?case
    by (simp add: insert_buffers_def x)
qed


lemma fold_err_preserves:
  assumes "\<And>x s s'. f x s = Inr s' \<Longrightarrow> g s' = g s"
    and "fold_err f xs s = Inr s'"
  shows "g s' = g s"
  using assms(2)
proof (induction xs arbitrary: s)
  case Nil
  then show ?case by simp
next
  case (Cons x xs)
  then obtain s1 where a: "f x s = Inr s1" and b: "fold_err f xs s1 = Inr s'"
    by (auto split: sum.splits)
  from Cons.IH [OF b] assms(1) [OF a] show ?case by simp
qed

lemma setPort_wires [simp]: "mod_wires (setPort c p sig m) = mod_wires m"
  by (simp add: setPort_def)

lemma repoint_bufr_wires: "repoint_bufr iw cl m = Inr m' \<Longrightarrow> mod_wires m' = mod_wires m"
  by (auto simp: repoint_bufr_def split: sum.splits)

lemma reconnect_bit_wires:
  "reconnect_bit e bb bm cref k acc = Inr acc' \<Longrightarrow>
   mod_wires (fst acc') = mod_wires (fst acc)"
proof -
  assume a: "reconnect_bit e bb bm cref k acc = Inr acc'"
  obtain m sig ns where acc: "acc = (m, sig, ns)" by (cases acc)
  show ?thesis
  proof (cases "bb (env_sigmap e (sig ! k))")
    case None
    then show ?thesis using a by (simp add: reconnect_bit_def acc)
  next
    case (Some ci)
    obtain bcell iwire where ci: "ci = (bcell, iwire)" by (cases ci)
    show ?thesis
    proof (cases "cref = bcell")
      case True
      then show ?thesis using a Some ci by (simp add: reconnect_bit_def acc)
    next
      case False
      then obtain m' where m': "fold_err (repoint_bufr iwire)
           (bufr_cells_find bm (env_hash e (env_sigmap e (sig ! k)))) m = Inr m'"
        and acc': "acc' = (m', sig[k := WireBit iwire 0], True)"
        using a Some ci by (auto simp: reconnect_bit_def acc split: sum.splits)
      have "mod_wires m' = mod_wires m"
        using fold_err_preserves [of "repoint_bufr iwire" mod_wires, OF repoint_bufr_wires m'] .
      then show ?thesis by (simp add: acc acc')
    qed
  qed
qed

lemma reconnect_port_wires:
  "reconnect_port e bb bm cref j m = Inr m' \<Longrightarrow> mod_wires m' = mod_wires m"
proof -
  assume a: "reconnect_port e bb bm cref j m = Inr m'"
  obtain p sig0 where ps: "connections (mod_cells m ! cref) ! j = (p, sig0)"
    by (cases "connections (mod_cells m ! cref) ! j")
  show ?thesis
  proof (cases "env_output e (cell_type (mod_cells m ! cref)) p")
    case False
    then show ?thesis using a ps by (simp add: reconnect_port_def)
  next
    case True
    then obtain m1 sig ns where f: "fold_err (reconnect_bit e bb bm cref) [0..<length sig0]
                    (m, sig0, False) = Inr (m1, sig, ns)"
      and m': "m' = (if ns then setPort cref p sig m1 else m1)"
      using a ps by (auto simp: reconnect_port_def split: sum.splits)
    have "mod_wires (fst (m1, sig, ns)) = mod_wires (fst (m, sig0, False))"
      using fold_err_preserves [of "reconnect_bit e bb bm cref" "\<lambda>acc. mod_wires (fst acc)",
          OF reconnect_bit_wires f] .
    then show ?thesis using m' by simp
  qed
qed

lemma reconnect_cell_wires:
  assumes "reconnect_cell e bb bm cref m = Inr m'"
  shows "mod_wires m' = mod_wires m"
proof (rule fold_err_preserves [where g = mod_wires and f = "reconnect_port e bb bm cref"])
  show "\<And>x s s'. reconnect_port e bb bm cref x s = Inr s' \<Longrightarrow> mod_wires s' = mod_wires s"
    by (rule reconnect_port_wires)
  show "fold_err (reconnect_port e bb bm cref)
          [0..<length (connections (mod_cells m ! cref))] m = Inr m'"
    using assms unfolding reconnect_cell_def .
qed

lemma reconnect_drivers_wires:
  assumes "reconnect_drivers e bb bm m = Inr m'"
  shows "mod_wires m' = mod_wires m"
proof (rule fold_err_preserves [where g = mod_wires and f = "reconnect_cell e bb bm"])
  show "\<And>x s s'. reconnect_cell e bb bm x s = Inr s' \<Longrightarrow> mod_wires s' = mod_wires s"
    by (rule reconnect_cell_wires)
  show "fold_err (reconnect_cell e bb bm) [0..<length (mod_cells m)] m = Inr m'"
    using assms unfolding reconnect_drivers_def .
qed

lemma collect_buf_bits_wire_module:
  "st_module (fst (collect_buf_bits_wire e cfg x acc)) = st_module (fst acc) \<and>
   input_queue (fst (collect_buf_bits_wire e cfg x acc)) = input_queue (fst acc) \<and>
   buffered_bits (fst (collect_buf_bits_wire e cfg x acc)) = buffered_bits (fst acc)"
proof -
  have b: "buffered_bits (bypass_wire w s) = buffered_bits s" for w s
  proof -
    have "buffered_bits (fold (mark_buf_port w) is s) = buffered_bits s" for "is"
      by (induction "is" arbitrary: s) (simp_all add: mark_buf_port_def)
    then show ?thesis by (simp add: bypass_wire_def)
  qed
  show ?thesis
    by (cases x; cases acc) (simp add: collect_buf_bits_wire_def b)
qed

lemma collect_buf_bits_module:
  "st_module (fst (collect_buf_bits e cfg xs st)) = st_module st \<and>
   input_queue (fst (collect_buf_bits e cfg xs st)) = input_queue st \<and>
   buffered_bits (fst (collect_buf_bits e cfg xs st)) = buffered_bits st"
proof -
  have "st_module (fst (fold (collect_buf_bits_wire e cfg) xs acc)) = st_module (fst acc) \<and>
        input_queue (fst (fold (collect_buf_bits_wire e cfg) xs acc)) = input_queue (fst acc) \<and>
        buffered_bits (fst (fold (collect_buf_bits_wire e cfg) xs acc)) = buffered_bits (fst acc)"
    for acc
    by (induction xs arbitrary: acc) (simp_all add: collect_buf_bits_wire_module)
  then show ?thesis by (simp add: collect_buf_bits_def)
qed

lemma mark_buffered_wire_module:
  "st_module (mark_buffered_wire e x st) = st_module st \<and>
   input_queue (mark_buffered_wire e x st) = input_queue st \<and>
   buffered_bits (mark_buffered_wire e x st) = buffered_bits st"
proof -
  have "st_module (fold (mark_buffered_bit e wref wire) is s) = st_module s \<and>
        input_queue (fold (mark_buffered_bit e wref wire) is s) = input_queue s \<and>
        buffered_bits (fold (mark_buffered_bit e wref wire) is s) = buffered_bits s"
    for wref wire "is" s
    by (induction "is" arbitrary: s) (simp_all add: mark_buffered_bit_def mark_buf_port_def)
  then show ?thesis by (cases x) (simp add: mark_buffered_wire_def)
qed

lemma mark_buffered_outputs_module:
  "st_module (mark_buffered_outputs e st) = st_module st \<and>
   input_queue (mark_buffered_outputs e st) = input_queue st \<and>
   buffered_bits (mark_buffered_outputs e st) = buffered_bits st"
proof -
  have "st_module (fold (mark_buffered_wire e) xs s) = st_module s \<and>
        input_queue (fold (mark_buffered_wire e) xs s) = input_queue s \<and>
        buffered_bits (fold (mark_buffered_wire e) xs s) = buffered_bits s" for xs s
    by (induction xs arbitrary: s) (simp_all add: mark_buffered_wire_module)
  then show ?thesis by (simp add: mark_buffered_outputs_def)
qed


lemma swap_demote_wires:
  assumes "wref \<noteq> nw" "wref < length (mod_wires m)" "nw < length (mod_wires m)"
  shows "length (mod_wires (demote_wire wref (swap_names nw wref m))) = length (mod_wires m)"
    and "mod_wires (demote_wire wref (swap_names nw wref m)) ! nw =
           (mod_wires m ! nw)\<lparr>wire_name := wire_name (mod_wires m ! wref)\<rparr>"
    and "k \<noteq> wref \<Longrightarrow> k \<noteq> nw \<Longrightarrow>
           mod_wires (demote_wire wref (swap_names nw wref m)) ! k = mod_wires m ! k"
  using assms by (simp_all add: demote_wire_def swap_names_def Let_def)

lemma apply_input_queue_nth:
  assumes "length ws0 \<le> length (mod_wires m)"
    and "distinct (map fst q)" and "distinct (map snd q)"
    and "\<forall>(wref, nw)\<in>set q. wref < length ws0 \<and> length ws0 \<le> nw \<and> nw < length (mod_wires m) \<and>
           mod_wires m ! wref = ws0 ! wref \<and>
           (\<exists>name. mod_wires m ! nw = (ws0 ! wref)\<lparr>wire_name := name\<rparr>)"
  shows "length (mod_wires (apply_input_queue q m)) = length (mod_wires m) \<and>
         (\<forall>(wref, nw)\<in>set q. mod_wires (apply_input_queue q m) ! nw = ws0 ! wref) \<and>
         (\<forall>k. k \<notin> fst ` set q \<and> k \<notin> snd ` set q \<longrightarrow>
              mod_wires (apply_input_queue q m) ! k = mod_wires m ! k)"
  using assms
proof (induction q arbitrary: m)
  case Nil
  then show ?case by (simp add: apply_input_queue_def)
next
  case (Cons x q)
  obtain wref nw where x: "x = (wref, nw)" by (cases x)
  let ?m1 = "demote_wire wref (swap_names nw wref m)"
  from Cons.prems(4) x obtain name where
    h: "wref < length ws0" "length ws0 \<le> nw" "nw < length (mod_wires m)"
       "mod_wires m ! wref = ws0 ! wref" "mod_wires m ! nw = (ws0 ! wref)\<lparr>wire_name := name\<rparr>"
    by auto
  have ne: "wref \<noteq> nw" and wl: "wref < length (mod_wires m)" using h Cons.prems(1) by auto
  note sd = swap_demote_wires [OF ne wl h(3)]
  have nw1: "mod_wires ?m1 ! nw = ws0 ! wref" using sd(2) h(4,5) by simp
  have len1: "length (mod_wires ?m1) = length (mod_wires m)" using sd(1) .
  have rest: "\<forall>(w', n')\<in>set q. w' < length ws0 \<and> length ws0 \<le> n' \<and> n' < length (mod_wires ?m1) \<and>
           mod_wires ?m1 ! w' = ws0 ! w' \<and>
           (\<exists>name. mod_wires ?m1 ! n' = (ws0 ! w')\<lparr>wire_name := name\<rparr>)"
  proof
    fix y assume y: "y \<in> set q"
    obtain w' n' where ye: "y = (w', n')" by (cases y)
    from Cons.prems(4) y ye obtain name' where
      g: "w' < length ws0" "length ws0 \<le> n'" "n' < length (mod_wires m)"
         "mod_wires m ! w' = ws0 ! w'" "mod_wires m ! n' = (ws0 ! w')\<lparr>wire_name := name'\<rparr>"
      by auto
    have "w' \<in> fst ` set q" "n' \<in> snd ` set q" using y ye by force+
    then have d: "w' \<noteq> wref" "n' \<noteq> nw" using Cons.prems(2,3) x by auto
    have d2: "w' \<noteq> nw" "n' \<noteq> wref" using g h by auto
    have "mod_wires ?m1 ! w' = ws0 ! w'" using sd(3) [of w'] d d2 g(4) by simp
    moreover have "mod_wires ?m1 ! n' = (ws0 ! w')\<lparr>wire_name := name'\<rparr>"
      using sd(3) [of n'] d d2 g(5) by simp
    ultimately show "case y of (w', n') \<Rightarrow> w' < length ws0 \<and> length ws0 \<le> n' \<and>
           n' < length (mod_wires ?m1) \<and> mod_wires ?m1 ! w' = ws0 ! w' \<and>
           (\<exists>name. mod_wires ?m1 ! n' = (ws0 ! w')\<lparr>wire_name := name\<rparr>)"
      using g len1 ye by auto
  qed
  have d: "distinct (map fst q)" "distinct (map snd q)" using Cons.prems(2,3) by simp_all
  have l1: "length ws0 \<le> length (mod_wires ?m1)" using Cons.prems(1) len1 by simp
  note IH = Cons.IH [OF l1 d rest]
  have unf: "apply_input_queue (x # q) m = apply_input_queue q ?m1"
    by (simp add: apply_input_queue_def x)
  have nwq: "nw \<notin> fst ` set q" "nw \<notin> snd ` set q"
  proof -
    show "nw \<notin> snd ` set q" using Cons.prems(3) x by auto
    show "nw \<notin> fst ` set q"
    proof
      assume "nw \<in> fst ` set q"
      then obtain n' where "(nw, n') \<in> set q" by auto
      with rest have "nw < length ws0" by auto
      with h(2) show False by simp
    qed
  qed
  show ?case
    unfolding unf
  proof (intro conjI)
    show "length (mod_wires (apply_input_queue q ?m1)) = length (mod_wires m)"
      using IH len1 by simp
    show "\<forall>(wref, nw)\<in>set (x # q). mod_wires (apply_input_queue q ?m1) ! nw = ws0 ! wref"
      using IH nwq nw1 x by auto
    show "\<forall>k. k \<notin> fst ` set (x # q) \<and> k \<notin> snd ` set (x # q) \<longrightarrow>
              mod_wires (apply_input_queue q ?m1) ! k = mod_wires m ! k"
    proof (intro allI impI)
      fix k assume k: "k \<notin> fst ` set (x # q) \<and> k \<notin> snd ` set (x # q)"
      then have "k \<noteq> wref" "k \<noteq> nw" "k \<notin> fst ` set q \<and> k \<notin> snd ` set q"
        using x by auto
      then show "mod_wires (apply_input_queue q ?m1) ! k = mod_wires m ! k"
        using IH sd(3) [of k] by simp
    qed
  qed
qed

lemma apply_input_queue_keeps:
  assumes ok: "queue_ok ws0 (mod_wires m) q" and w: "w \<in> set ws0"
  shows "w \<in> set (mod_wires (apply_input_queue q m))"
proof -
  from ok obtain ext where ws: "mod_wires m = ws0 @ ext" by (auto simp: queue_ok_def)
  have len: "length ws0 \<le> length (mod_wires m)" using ws by simp
  have d: "distinct (map fst q)" "distinct (map snd q)" using ok by (simp_all add: queue_ok_def)
  have ent: "\<forall>(wref, nw)\<in>set q. wref < length ws0 \<and> length ws0 \<le> nw \<and>
           nw < length (mod_wires m) \<and> mod_wires m ! wref = ws0 ! wref \<and>
           (\<exists>name. mod_wires m ! nw = (ws0 ! wref)\<lparr>wire_name := name\<rparr>)"
  proof
    fix y assume y: "y \<in> set q"
    obtain w' n' where ye: "y = (w', n')" by (cases y)
    from ok y ye have g: "w' < length ws0" "length ws0 \<le> n'" "n' < length (mod_wires m)"
      "\<exists>name. mod_wires m ! n' = (ws0 ! w')\<lparr>wire_name := name\<rparr>"
      unfolding queue_ok_def by blast+
    have "mod_wires m ! w' = ws0 ! w'" using ws g(1) by (simp add: nth_append)
    then show "case y of (wref, nw) \<Rightarrow> wref < length ws0 \<and> length ws0 \<le> nw \<and>
           nw < length (mod_wires m) \<and> mod_wires m ! wref = ws0 ! wref \<and>
           (\<exists>name. mod_wires m ! nw = (ws0 ! wref)\<lparr>wire_name := name\<rparr>)"
      using g ye by simp
  qed
  note r = apply_input_queue_nth [OF len d ent]
  from w obtain k where k: "k < length ws0" "w = ws0 ! k" by (auto simp: in_set_conv_nth)
  show ?thesis
  proof (cases "k \<in> fst ` set q")
    case True
    then obtain nw where in_q: "(k, nw) \<in> set q" by auto
    then have "mod_wires (apply_input_queue q m) ! nw = ws0 ! k" using r by auto
    moreover have "nw < length (mod_wires (apply_input_queue q m))"
      using ent in_q r by auto
    ultimately show ?thesis using k(2) by (metis nth_mem)
  next
    case False
    have "k \<notin> snd ` set q"
    proof
      assume "k \<in> snd ` set q"
      then obtain w' where "(w', k) \<in> set q" by auto
      with ent have "length ws0 \<le> k" by auto
      with k(1) show False by simp
    qed
    with False r have "mod_wires (apply_input_queue q m) ! k = mod_wires m ! k" by simp
    also have "\<dots> = w" using ws k by (simp add: nth_append)
    finally have "mod_wires (apply_input_queue q m) ! k = w" .
    moreover have "k < length (mod_wires (apply_input_queue q m))" using r len k(1) by simp
    ultimately show ?thesis by (metis nth_mem)
  qed
qed


lemma fixup_ports_keeps:
  assumes "w \<in> set (mod_wires m)"
  shows "\<exists>w'. w' \<in> set (mod_wires (fixup_ports m)) \<and> wire_name w' = wire_name w \<and>
           width w' = width w \<and> port_input w' = port_input w \<and>
           port_output w' = port_output w \<and> attributes w' = attributes w"
    and "port_input w \<or> port_output w \<Longrightarrow> wire_name w \<in> set (ports (fixup_ports m))"
proof -
  let ?names = "map wire_name (sort_key port_id
            (filter (\<lambda>w. port_input w \<or> port_output w) (mod_wires m)))"
  let ?f = "\<lambda>w. if port_input w \<or> port_output w
                       then w\<lparr>port_id := Suc (length (takeWhile (\<lambda>n. n \<noteq> wire_name w) ?names))\<rparr>
                       else w\<lparr>port_id := 0\<rparr>"
  have mw: "mod_wires (fixup_ports m) = map ?f (mod_wires m)"
    by (simp add: fixup_ports_def Let_def)
  have "?f w \<in> set (mod_wires (fixup_ports m))" using assms mw by simp
  moreover have "wire_name (?f w) = wire_name w \<and> width (?f w) = width w \<and>
      port_input (?f w) = port_input w \<and> port_output (?f w) = port_output w \<and>
      attributes (?f w) = attributes w" by simp
  ultimately show "\<exists>w'. w' \<in> set (mod_wires (fixup_ports m)) \<and> wire_name w' = wire_name w \<and>
           width w' = width w \<and> port_input w' = port_input w \<and>
           port_output w' = port_output w \<and> attributes w' = attributes w" by blast
  show "wire_name w \<in> set (ports (fixup_ports m))" if "port_input w \<or> port_output w"
    using that assms by (auto simp: fixup_ports_def Let_def)
qed

lemma queue_ok_initial: "queue_ok ws0 ws0 []"
  by (simp add: queue_ok_def)

lemma enumerate_facts:
  "distinct (map fst (enumerate 0 ws))"
  "\<forall>(wref, wire)\<in>set (enumerate 0 ws). wref < length ws \<and> ws ! wref = wire"
  by (auto simp: in_set_enumerate_eq)

text \<open>
  C2. When the processing of a module completes, every wire that was a port of the module
  before (an input or an output flag set) has a wire of the same name, the same width and
  the same input and output flags in the module afterwards, and its name is in the
  module's port list.
\<close>

theorem ports_preserved:
  assumes run: "process_module e cfg st = Inr st'"
    and w: "w \<in> set (mod_wires (st_module st))"
    and port: "port_input w \<or> port_output w"
  shows "(\<exists>w'. w' \<in> set (mod_wires (st_module st')) \<and> wire_name w' = wire_name w \<and>
            width w' = width w \<and> port_input w' = port_input w \<and>
            port_output w' = port_output w) \<and>
         wire_name w \<in> set (ports (st_module st'))"
proof -
  let ?ws0 = "mod_wires (st_module st)"
  let ?wires = "enumerate 0 ?ws0"
  let ?cs = "mod_cells (st_module st)"
  from run obtain ts where ts: "propagate (env_sigmap e) (st_tabs st) ?cs
                (collect_tag_sets (env_sigmap e) (st_tabs st) ?cs) = Inr ts"
    by (auto simp: process_module_def Let_def split: sum.splits)
  obtain st1 buf_bits where c: "collect_buf_bits e cfg ?wires
       (st\<lparr>buffered_bits := (\<lambda>b. None), input_queue := []\<rparr>) = (st1, buf_bits)"
    by (cases "collect_buf_bits e cfg ?wires (st\<lparr>buffered_bits := (\<lambda>b. None), input_queue := []\<rparr>)")
  from run ts c obtain bm where bm: "index_bufr_cells e buf_bits (enumerate 0 ?cs) = Inr bm"
    by (auto simp: process_module_def Let_def split: sum.splits)
  let ?st2 = "insert_buffers e cfg ts (driven_bits e ?cs) ?wires st1"
  let ?st3 = "mark_buffered_outputs e ?st2"
  from run ts c bm obtain m4 where
    m4: "reconnect_drivers e (buffered_bits ?st3) bm (st_module ?st3) = Inr m4"
    and st': "st' = ?st3\<lparr>st_module := fixup_ports (apply_input_queue (input_queue ?st3) m4)\<rparr>"
    by (auto simp: process_module_def Let_def split: sum.splits)
  have st1: "st_module st1 = st_module st" "input_queue st1 = []"
    using collect_buf_bits_module [of e cfg ?wires
        "st\<lparr>buffered_bits := (\<lambda>b. None), input_queue := []\<rparr>"] c by simp_all
  have ok1: "queue_ok ?ws0 (mod_wires (st_module st1)) (input_queue st1)"
    using st1 queue_ok_initial by simp
  have disj: "fst ` set ?wires \<inter> fst ` set (input_queue st1) = {}" using st1 by simp
  have ok2: "queue_ok ?ws0 (mod_wires (st_module ?st2)) (input_queue ?st2)"
    using insert_buffers_ok [OF ok1 enumerate_facts(1) enumerate_facts(2) disj] .
  have st3: "st_module ?st3 = st_module ?st2" "input_queue ?st3 = input_queue ?st2"
    using mark_buffered_outputs_module [of e ?st2] by simp_all
  have "mod_wires m4 = mod_wires (st_module ?st2)"
    using reconnect_drivers_wires [OF m4] st3 by simp
  with ok2 st3 have ok4: "queue_ok ?ws0 (mod_wires m4) (input_queue ?st3)" by simp
  have "w \<in> set (mod_wires (apply_input_queue (input_queue ?st3) m4))"
    using apply_input_queue_keeps [OF ok4 w] .
  from fixup_ports_keeps [OF this] port show ?thesis
    unfolding st' by auto
qed


theorem ports_preserved_witness:
  "\<not> isl (process_module plain_env bufg_config clk_state) \<and>
   clk_wire \<in> set (mod_wires (st_module clk_state)) \<and> port_input clk_wire \<and>
   map wire_name (mod_wires (st_module (projr (process_module plain_env bufg_config clk_state)))) =
     [env_new_id plain_env 2, env_new_id plain_env 1, ''clk''] \<and>
   map cell_type (mod_cells (st_module (projr (process_module plain_env bufg_config clk_state)))) =
     [''FDRE'', ID ''BUFG''] \<and>
   (\<exists>w'. w' \<in> set (mod_wires (st_module (projr (process_module plain_env bufg_config clk_state)))) \<and>
         wire_name w' = wire_name clk_wire \<and> width w' = width clk_wire \<and>
         port_input w' = port_input clk_wire \<and> port_output w' = port_output clk_wire) \<and>
   wire_name clk_wire \<in>
     set (ports (st_module (projr (process_module plain_env bufg_config clk_state))))"
proof -
  have r: "\<not> isl (process_module plain_env bufg_config clk_state)" by code_simp
  then have run: "process_module plain_env bufg_config clk_state =
      Inr (projr (process_module plain_env bufg_config clk_state))" by simp
  have w: "clk_wire \<in> set (mod_wires (st_module clk_state))" by code_simp
  have p: "port_input clk_wire" by code_simp
  have p': "port_input clk_wire \<or> port_output clk_wire" using p by simp
  have names: "map wire_name (mod_wires (st_module (projr
      (process_module plain_env bufg_config clk_state)))) =
     [env_new_id plain_env 2, env_new_id plain_env 1, ''clk'']" by code_simp
  have types: "map cell_type (mod_cells (st_module (projr
      (process_module plain_env bufg_config clk_state)))) = [''FDRE'', ID ''BUFG'']"
    by code_simp
  from ports_preserved [OF run w p'] r w p names types show ?thesis by simp
qed

subsection \<open>Secondary buffer cells\<close>
























end
